theory Spec2Isabelle
  imports Main "HOL-Library.AList"
begin

section \<open>Data model of the MCP client\<close>

text \<open>
  The client is the class \<open>MCPClient\<close>. Its fields, the configuration and the wire
  message are records; the connection state and the message kind are datatypes. Numbers
  that count (attempts, message counter, milliseconds) are natural numbers.
\<close>

datatype MCPConnectionState = Disconnected | Connecting | Connected | Error | Reconnecting

record MCPConfig =
  endpoint :: string
  apiKey :: "string option"
  timeout :: nat
  retryAttempts :: nat
  retryDelay :: nat
  enableFallback :: bool

text \<open>\<open>Partial<MCPConfig>\<close>: every key may be absent.\<close>

record PartialMCPConfig =
  p_endpoint :: "string option"
  p_apiKey :: "string option option"
  p_timeout :: "nat option"
  p_retryAttempts :: "nat option"
  p_retryDelay :: "nat option"
  p_enableFallback :: "bool option"

type_synonym json = string

datatype MessageType = Request | Response | Notification

record MCPError =
  err_code :: int
  err_message :: string
  err_data :: "json option"

record MCPMessage =
  msg_id :: string
  msg_type :: MessageType
  msg_method :: "string option"
  msg_params :: "json option"
  msg_result :: "json option"
  msg_error :: "MCPError option"
  msg_timestamp :: nat

subsection \<open>The host: timers, sockets and promises\<close>

text \<open>
  The callbacks of the source close over timers, sockets and the \<open>resolve\<close>/\<open>reject\<close>
  pair of a promise. They are handles here: a timer handle is an index into \<open>timers\<close>
  (\<open>None\<close> once cleared or fired), a socket handle an index into \<open>sockets\<close>, and a
  promise is the index of the call that created it: the \<open>p\<close>-th call of \<open>sendMessage\<close>
  (\<open>sendCalls\<close>) or of \<open>connect\<close> (\<open>connectCalls\<close>). Every call of \<open>resolve\<close> or
  \<open>reject\<close> is appended to \<open>sendSettled\<close> or \<open>connectSettled\<close>.
\<close>

datatype Outcome = Resolved "json option" | Rejected string

datatype TimerTask =
    RequestTimeout string "string option" nat
  | ConnectionTimeout nat
  | ReconnectTimer
  | HeartbeatInterval

datatype ReadyState = CONNECTING | OPEN | CLOSING | CLOSED

record WebSocket =
  readyState :: ReadyState
  connectionTimeout :: nat
  connectPromise :: nat

text \<open>An entry of \<open>pendingRequests\<close>: \<open>resolve\<close> and \<open>reject\<close> are the promise, \<open>timeout\<close> the timer.\<close>

record PendingRequest =
  promise :: nat
  timer :: nat

datatype Effect =
    Emit_connectionStateChange MCPConnectionState
  | Emit_error
  | Emit_healthUpdate
  | Emit_modelChanged
  | Emit_notification
  | WsSend nat MCPMessage
  | WsClose nat "nat option"
  | Threw string

record MCPClient =
  config :: MCPConfig
  connectionState :: MCPConnectionState
  messageId :: nat
  pendingRequests :: "(string \<times> PendingRequest) list"
  reconnectAttempts :: nat
  maxReconnectAttempts :: nat
  heartbeatInterval :: "nat option"
  websocket :: "nat option"
  timers :: "(TimerTask \<times> nat) option list"
  sockets :: "WebSocket list"
  sendCalls :: "MCPMessage list"
  sendSettled :: "(nat \<times> Outcome) list"
  connectCalls :: "bool list"
  connectSettled :: "(nat \<times> Outcome) list"
  trace :: "Effect list"

section \<open>The constructor\<close>

definition or_else :: "'a option \<Rightarrow> 'a \<Rightarrow> 'a" where
  "or_else x d = (case x of None \<Rightarrow> d | Some v \<Rightarrow> v)"

text \<open>
  \<open>env_endpoint\<close> and \<open>env_apiKey\<close> are \<open>process.env.MCP_ENDPOINT\<close> and
  \<open>process.env.MCP_API_KEY\<close>; an empty endpoint is falsy for \<open>||\<close>.
\<close>

definition constructor :: "string option \<Rightarrow> string option \<Rightarrow> PartialMCPConfig \<Rightarrow> MCPClient" where
  "constructor env_endpoint env_apiKey cfg =
     \<lparr> config = \<lparr> endpoint = or_else (p_endpoint cfg)
                      (if env_endpoint = None \<or> env_endpoint = Some [] then ''ws://localhost:8080/mcp''
                       else the env_endpoint),
                  apiKey = or_else (p_apiKey cfg) env_apiKey,
                  timeout = or_else (p_timeout cfg) 30000,
                  retryAttempts = or_else (p_retryAttempts cfg) 3,
                  retryDelay = or_else (p_retryDelay cfg) 1000,
                  enableFallback = or_else (p_enableFallback cfg) True \<rparr>,
       connectionState = Disconnected,
       messageId = 0,
       pendingRequests = [],
       reconnectAttempts = 0,
       maxReconnectAttempts = 5,
       heartbeatInterval = None,
       websocket = None,
       timers = [], sockets = [], sendCalls = [], sendSettled = [],
       connectCalls = [], connectSettled = [], trace = [] \<rparr>"

definition no_overrides :: PartialMCPConfig where
  "no_overrides = \<lparr> p_endpoint = None, p_apiKey = None, p_timeout = None,
      p_retryAttempts = None, p_retryDelay = None, p_enableFallback = None \<rparr>"

section \<open>Host primitives\<close>

definition setTimeout :: "TimerTask \<Rightarrow> nat \<Rightarrow> MCPClient \<Rightarrow> nat \<times> MCPClient" where
  "setTimeout task delay s = (length (timers s), s\<lparr>timers := timers s @ [Some (task, delay)]\<rparr>)"

definition clearTimeout :: "nat \<Rightarrow> MCPClient \<Rightarrow> MCPClient" where
  "clearTimeout t s = s\<lparr>timers := (timers s)[t := None]\<rparr>"

definition activeTimer :: "MCPClient \<Rightarrow> nat \<Rightarrow> (TimerTask \<times> nat) option" where
  "activeTimer s t = (if t < length (timers s) then timers s ! t else None)"

definition emit :: "Effect \<Rightarrow> MCPClient \<Rightarrow> MCPClient" where
  "emit e s = s\<lparr>trace := trace s @ [e]\<rparr>"

text \<open>\<open>WebSocket.close\<close>: a socket that is connecting or open starts closing.\<close>

definition wsClose :: "nat \<Rightarrow> nat option \<Rightarrow> MCPClient \<Rightarrow> MCPClient" where
  "wsClose w c s =
     (let s1 = emit (WsClose w c) s in
      if w < length (sockets s1) \<and> readyState (sockets s1 ! w) \<in> {CONNECTING, OPEN}
      then s1\<lparr>sockets := (sockets s1)[w := (sockets s1 ! w)\<lparr>readyState := CLOSING\<rparr>]\<rparr>
      else s1)"

definition settleSend :: "nat \<Rightarrow> Outcome \<Rightarrow> MCPClient \<Rightarrow> MCPClient" where
  "settleSend p out s = s\<lparr>sendSettled := sendSettled s @ [(p, out)]\<rparr>"

section \<open>The methods of \<open>MCPClient\<close>\<close>

definition setConnectionState :: "MCPConnectionState \<Rightarrow> MCPClient \<Rightarrow> MCPClient" where
  "setConnectionState st s =
     (if connectionState s \<noteq> st
      then emit (Emit_connectionStateChange st) (s\<lparr>connectionState := st\<rparr>)
      else s)"

definition isConnected :: "MCPClient \<Rightarrow> bool" where
  "isConnected s =
     (connectionState s = Connected \<and>
      (case websocket s of None \<Rightarrow> False
       | Some w \<Rightarrow> w < length (sockets s) \<and> readyState (sockets s ! w) = OPEN))"

definition getConnectionState :: "MCPClient \<Rightarrow> MCPConnectionState" where
  "getConnectionState s = connectionState s"

text \<open>Decimal rendering of a number in a template literal.\<close>

definition digit :: "nat \<Rightarrow> char" where
  "digit d = ''0123456789'' ! d"

fun dec :: "nat \<Rightarrow> string" where
  "dec n = (if n < 10 then [digit n] else dec (n div 10) @ [digit (n mod 10)])"

declare dec.simps [simp del]

definition mkId :: "nat \<Rightarrow> nat \<Rightarrow> string" where
  "mkId now n = ''mcp_'' @ dec now @ ''_'' @ dec n"

text \<open>\<open>generateMessageId\<close>; \<open>now\<close> is \<open>Date.now()\<close>.\<close>

definition generateMessageId :: "nat \<Rightarrow> MCPClient \<Rightarrow> string \<times> MCPClient" where
  "generateMessageId now s =
     (let n = messageId s + 1 in (mkId now n, s\<lparr>messageId := n\<rparr>))"

definition startHeartbeat :: "MCPClient \<Rightarrow> MCPClient" where
  "startHeartbeat s =
     (let (t, s1) = setTimeout HeartbeatInterval 30000 s in s1\<lparr>heartbeatInterval := Some t\<rparr>)"

definition stopHeartbeat :: "MCPClient \<Rightarrow> MCPClient" where
  "stopHeartbeat s =
     (case heartbeatInterval s of None \<Rightarrow> s
      | Some t \<Rightarrow> (clearTimeout t s)\<lparr>heartbeatInterval := None\<rparr>)"

definition handleReconnection :: "MCPClient \<Rightarrow> MCPClient" where
  "handleReconnection s =
     (if reconnectAttempts s \<ge> maxReconnectAttempts s then setConnectionState Error s
      else
        let s1 = setConnectionState Reconnecting s;
            s2 = s1\<lparr>reconnectAttempts := reconnectAttempts s1 + 1\<rparr>;
            delay = retryDelay (config s2) * 2 ^ (reconnectAttempts s2 - 1)
        in snd (setTimeout ReconnectTimer delay s2))"

text \<open>
  Settling the promise of a \<open>connect\<close> call. The reconnection timer awaits the promise it
  got (\<open>connectCalls ! p\<close> is then \<open>True\<close>) and calls \<open>handleReconnection\<close> when it is
  rejected; only the first settlement of a promise counts.
\<close>

definition resolveConnect :: "nat \<Rightarrow> json \<Rightarrow> MCPClient \<Rightarrow> MCPClient" where
  "resolveConnect p v s = s\<lparr>connectSettled := connectSettled s @ [(p, Resolved (Some v))]\<rparr>"

definition rejectConnect :: "nat \<Rightarrow> string \<Rightarrow> MCPClient \<Rightarrow> MCPClient" where
  "rejectConnect p err s =
     (let first = (p \<notin> fst ` set (connectSettled s));
          s1 = s\<lparr>connectSettled := connectSettled s @ [(p, Rejected err)]\<rparr>
      in if first \<and> p < length (connectCalls s) \<and> connectCalls s ! p
         then handleReconnection s1 else s1)"

text \<open>
  \<open>connect\<close>. \<open>supported\<close> says that \<open>WebSocket\<close> is defined, \<open>constructed\<close> that
  \<open>new WebSocket\<close> did not throw, \<open>awaited\<close> that the caller is the reconnection timer.
  The three handlers of the new socket close over its timer and promise, which the socket
  record keeps.
\<close>

definition connect :: "bool \<Rightarrow> bool \<Rightarrow> bool \<Rightarrow> MCPClient \<Rightarrow> MCPClient" where
  "connect supported constructed awaited s =
     (let s1 = setConnectionState Connecting s;
          p = length (connectCalls s1);
          s2 = s1\<lparr>connectCalls := connectCalls s1 @ [awaited]\<rparr>
      in if \<not> supported then resolveConnect p ''false'' (setConnectionState Error s2)
         else if \<not> constructed
         then rejectConnect p ''WebSocket constructor failed'' (setConnectionState Error s2)
         else
           let w = length (sockets s2);
               (t, s3) = setTimeout (ConnectionTimeout p) (timeout (config s2)) s2
           in s3\<lparr>websocket := Some w,
                 sockets := sockets s3 @
                   [\<lparr>readyState = CONNECTING, connectionTimeout = t, connectPromise = p\<rparr>]\<rparr>)"

definition rejectPending :: "string \<times> PendingRequest \<Rightarrow> MCPClient \<Rightarrow> MCPClient" where
  "rejectPending e s =
     settleSend (promise (snd e)) (Rejected ''Connection closed'') (clearTimeout (timer (snd e)) s)"

definition disconnect :: "MCPClient \<Rightarrow> MCPClient" where
  "disconnect s =
     (let s1 = stopHeartbeat s;
          s2 = (case websocket s1 of None \<Rightarrow> s1
                | Some w \<Rightarrow> (wsClose w (Some 1000) s1)\<lparr>websocket := None\<rparr>);
          s3 = fold rejectPending (pendingRequests s2) s2;
          s4 = s3\<lparr>pendingRequests := []\<rparr>
      in setConnectionState Disconnected s4)"

text \<open>\<open>${message.method}\<close> in a template literal.\<close>

definition method_text :: "string option \<Rightarrow> string" where
  "method_text m = (case m of None \<Rightarrow> ''undefined'' | Some x \<Rightarrow> x)"

text \<open>
  \<open>sendMessage\<close>; \<open>thrown\<close> is the error that \<open>websocket.send\<close> throws, if it does.
\<close>

definition sendMessage :: "MCPMessage \<Rightarrow> string option \<Rightarrow> MCPClient \<Rightarrow> MCPClient" where
  "sendMessage m thrown s =
     (let p = length (sendCalls s);
          s0 = s\<lparr>sendCalls := sendCalls s @ [m]\<rparr>
      in if \<not> isConnected s0 \<or> websocket s0 = None
         then settleSend p (Rejected ''MCP client not connected'') s0
         else
           let (t, s1) = setTimeout (RequestTimeout (msg_id m) (msg_method m) p) (timeout (config s0)) s0;
               s2 = s1\<lparr>pendingRequests :=
                        AList.update (msg_id m) \<lparr>promise = p, timer = t\<rparr> (pendingRequests s1)\<rparr>
           in case thrown of
                None \<Rightarrow> emit (WsSend (the (websocket s2)) m) s2
              | Some err \<Rightarrow>
                  settleSend p (Rejected err)
                    (clearTimeout t
                      (s2\<lparr>pendingRequests := AList.delete (msg_id m) (pendingRequests s2)\<rparr>)))"

definition request :: "string \<Rightarrow> json \<Rightarrow> nat \<Rightarrow> string option \<Rightarrow> MCPClient \<Rightarrow> MCPClient" where
  "request meth params now thrown s =
     (let (i, s1) = generateMessageId now s
      in sendMessage \<lparr>msg_id = i, msg_type = Request, msg_method = Some meth,
                      msg_params = Some params, msg_result = None, msg_error = None,
                      msg_timestamp = now\<rparr> thrown s1)"

definition sendChatMessage :: "json \<Rightarrow> nat \<Rightarrow> string option \<Rightarrow> MCPClient \<Rightarrow> MCPClient" where
  "sendChatMessage params now thrown s =
     (if \<not> isConnected s then emit (Threw ''MCP client not connected'') s
      else request ''chat.completion'' params now thrown s)"

definition getSystemHealth :: "nat \<Rightarrow> string option \<Rightarrow> MCPClient \<Rightarrow> MCPClient" where
  "getSystemHealth now thrown s =
     (if \<not> isConnected s then emit (Threw ''MCP client not connected'') s
      else request ''system.health'' ''{}'' now thrown s)"

definition ping :: "nat \<Rightarrow> string option \<Rightarrow> MCPClient \<Rightarrow> MCPClient" where
  "ping now thrown s = request ''system.ping'' (''{timestamp: '' @ dec now @ ''}'') now thrown s"

definition handleNotification :: "MCPMessage \<Rightarrow> MCPClient \<Rightarrow> MCPClient" where
  "handleNotification m s =
     (if msg_method m = Some ''server.shutdown'' then disconnect s
      else if msg_method m = Some ''system.health'' then emit Emit_healthUpdate s
      else if msg_method m = Some ''ai.model.changed'' then emit Emit_modelChanged s
      else emit Emit_notification s)"

definition handleIncomingMessage :: "MCPMessage \<Rightarrow> MCPClient \<Rightarrow> MCPClient" where
  "handleIncomingMessage m s =
     (if msg_type m = Response \<and> msg_id m \<noteq> [] then
        (case map_of (pendingRequests s) (msg_id m) of
           None \<Rightarrow> s
         | Some pending \<Rightarrow>
             let s1 = clearTimeout (timer pending) s;
                 s2 = s1\<lparr>pendingRequests := AList.delete (msg_id m) (pendingRequests s1)\<rparr>
             in (case msg_error m of
                   Some e \<Rightarrow> settleSend (promise pending) (Rejected (''MCP Error: '' @ err_message e)) s2
                 | None \<Rightarrow> settleSend (promise pending) (Resolved (msg_result m)) s2))
      else if msg_type m = Notification then handleNotification m s
      else s)"

section \<open>The callbacks\<close>

text \<open>The three socket handlers installed by \<open>connect\<close>, for the socket \<open>w\<close>.\<close>

definition onopen :: "nat \<Rightarrow> MCPClient \<Rightarrow> MCPClient" where
  "onopen w s =
     (let k = sockets s ! w;
          s1 = clearTimeout (connectionTimeout k) s;
          s2 = setConnectionState Connected s1;
          s3 = s2\<lparr>reconnectAttempts := 0\<rparr>;
          s4 = startHeartbeat s3
      in resolveConnect (connectPromise k) ''true'' s4)"

definition onmessage :: "MCPMessage option \<Rightarrow> MCPClient \<Rightarrow> MCPClient" where
  "onmessage parsed s = (case parsed of None \<Rightarrow> s | Some m \<Rightarrow> handleIncomingMessage m s)"

definition onclose :: "nat \<Rightarrow> nat \<Rightarrow> MCPClient \<Rightarrow> MCPClient" where
  "onclose w code s =
     (let k = sockets s ! w;
          s1 = clearTimeout (connectionTimeout k) s;
          s2 = setConnectionState Disconnected s1;
          s3 = stopHeartbeat s2
      in if code \<noteq> 1000 then handleReconnection s3 else s3)"

definition onerror :: "nat \<Rightarrow> MCPClient \<Rightarrow> MCPClient" where
  "onerror w s =
     (let k = sockets s ! w;
          s1 = clearTimeout (connectionTimeout k) s;
          s2 = setConnectionState Error s1;
          s3 = emit Emit_error s2
      in rejectConnect (connectPromise k) ''WebSocket error event'' s3)"

text \<open>The timer callbacks: of \<open>sendMessage\<close>, of \<open>connect\<close>, of \<open>handleReconnection\<close>, of \<open>startHeartbeat\<close>.\<close>

definition requestTimeout :: "string \<Rightarrow> string option \<Rightarrow> nat \<Rightarrow> MCPClient \<Rightarrow> MCPClient" where
  "requestTimeout i meth p s =
     settleSend p (Rejected (''MCP request timeout: '' @ method_text meth))
       (s\<lparr>pendingRequests := AList.delete i (pendingRequests s)\<rparr>)"

definition connectTimeout :: "nat \<Rightarrow> MCPClient \<Rightarrow> MCPClient" where
  "connectTimeout p s =
     rejectConnect p ''MCP connection timeout''
       (case websocket s of None \<Rightarrow> s | Some w \<Rightarrow> wsClose w None s)"

definition heartbeat :: "nat \<Rightarrow> string option \<Rightarrow> MCPClient \<Rightarrow> MCPClient" where
  "heartbeat now thrown s = (if isConnected s then ping now thrown s else s)"

section \<open>Events\<close>

text \<open>
  One task of the event loop at a time: a call of the public interface, a socket event or
  a timer that fires. What the host decides comes with the event: whether \<open>WebSocket\<close>
  exists and its constructor succeeds, the clock, the error \<open>send\<close> throws. A socket opens
  only while it is connecting and closes once; a timer fires only while it is active, a
  timeout once.
\<close>

record HostInputs =
  h_supported :: bool
  h_constructed :: bool
  h_now :: nat
  h_thrown :: "string option"

datatype Event =
    CallConnect bool bool
  | CallDisconnect
  | CallSendChatMessage json nat "string option"
  | CallGetSystemHealth nat "string option"
  | SocketOpen nat
  | SocketMessage nat "MCPMessage option"
  | SocketClose nat nat
  | SocketError nat
  | TimerFires nat HostInputs

definition setReadyState :: "nat \<Rightarrow> ReadyState \<Rightarrow> MCPClient \<Rightarrow> MCPClient" where
  "setReadyState w r s = s\<lparr>sockets := (sockets s)[w := (sockets s ! w)\<lparr>readyState := r\<rparr>]\<rparr>"

definition fireTimer :: "nat \<Rightarrow> HostInputs \<Rightarrow> MCPClient \<Rightarrow> MCPClient" where
  "fireTimer t h s =
     (case activeTimer s t of
        None \<Rightarrow> s
      | Some (task, delay) \<Rightarrow>
          (case task of
             RequestTimeout i meth p \<Rightarrow> requestTimeout i meth p (clearTimeout t s)
           | ConnectionTimeout p \<Rightarrow> connectTimeout p (clearTimeout t s)
           | ReconnectTimer \<Rightarrow> connect (h_supported h) (h_constructed h) True (clearTimeout t s)
           | HeartbeatInterval \<Rightarrow> heartbeat (h_now h) (h_thrown h) s))"

fun step :: "Event \<Rightarrow> MCPClient \<Rightarrow> MCPClient" where
  "step (CallConnect ok1 ok2) s = connect ok1 ok2 False s"
| "step CallDisconnect s = disconnect s"
| "step (CallSendChatMessage params n thr) s = sendChatMessage params n thr s"
| "step (CallGetSystemHealth n thr) s = getSystemHealth n thr s"
| "step (SocketOpen w) s =
     (if w < length (sockets s) \<and> readyState (sockets s ! w) = CONNECTING
      then onopen w (setReadyState w OPEN s) else s)"
| "step (SocketMessage w parsed) s =
     (if w < length (sockets s) then onmessage parsed s else s)"
| "step (SocketClose w code) s =
     (if w < length (sockets s) \<and> readyState (sockets s ! w) \<noteq> CLOSED
      then onclose w code (setReadyState w CLOSED s) else s)"
| "step (SocketError w) s =
     (if w < length (sockets s) then onerror w s else s)"
| "step (TimerFires t h) s = fireTimer t h s"

definition run :: "Event list \<Rightarrow> MCPClient \<Rightarrow> MCPClient" where
  "run es s = fold step es s"

section \<open>Auxiliary notions for the proofs\<close>

definition digit_val :: "char \<Rightarrow> nat" where
  "digit_val c = of_char c - 48"

definition undec :: "string \<Rightarrow> nat" where
  "undec cs = foldl (\<lambda>a c. 10 * a + digit_val c) 0 cs"

fun isRequestTimeout :: "TimerTask \<Rightarrow> bool" where
  "isRequestTimeout (RequestTimeout i m p) = True"
| "isRequestTimeout _ = False"

definition frame :: "MCPClient \<Rightarrow> MCPClient \<Rightarrow> bool" where
  "frame s s' \<longleftrightarrow>
     pendingRequests s' = pendingRequests s \<and> sendCalls s' = sendCalls s \<and>
     sendSettled s' = sendSettled s \<and> messageId s' = messageId s \<and>
     length (timers s) \<le> length (timers s') \<and>
     (\<forall>t task d. activeTimer s' t = Some (task, d) \<longrightarrow>
        (if t < length (timers s) then activeTimer s t = Some (task, d) else \<not> isRequestTimeout task))"

definition ids_ok :: "MCPClient \<Rightarrow> bool" where
  "ids_ok s \<longleftrightarrow>
     distinct (map msg_id (sendCalls s)) \<and>
     (\<forall>m \<in> set (sendCalls s). \<exists>clock n. msg_id m = mkId clock n \<and> n \<le> messageId s)"

definition pending_ok :: "MCPClient \<Rightarrow> bool" where
  "pending_ok s \<longleftrightarrow>
     distinct (map fst (pendingRequests s)) \<and>
     (\<forall>i pe. (i, pe) \<in> set (pendingRequests s) \<longrightarrow>
        promise pe < length (sendCalls s) \<and> msg_id (sendCalls s ! promise pe) = i \<and>
        promise pe \<notin> fst ` set (sendSettled s))"

definition timers_ok :: "MCPClient \<Rightarrow> bool" where
  "timers_ok s \<longleftrightarrow>
     (\<forall>t i m p d. activeTimer s t = Some (RequestTimeout i m p, d) \<longrightarrow>
        map_of (pendingRequests s) i = Some \<lparr>promise = p, timer = t\<rparr>)"

definition settled_ok :: "MCPClient \<Rightarrow> bool" where
  "settled_ok s \<longleftrightarrow>
     distinct (map fst (sendSettled s)) \<and>
     (\<forall>p \<in> fst ` set (sendSettled s). p < length (sendCalls s)) \<and>
     (\<forall>p < length (sendCalls s). p \<in> fst ` set (sendSettled s) \<or>
        (\<exists>t. map_of (pendingRequests s) (msg_id (sendCalls s ! p)) = Some \<lparr>promise = p, timer = t\<rparr>))"

definition correlated :: "MCPClient \<Rightarrow> bool" where
  "correlated s \<longleftrightarrow> ids_ok s \<and> pending_ok s \<and> timers_ok s \<and> settled_ok s"

definition timers_keep :: "MCPClient \<Rightarrow> MCPClient \<Rightarrow> bool" where
  "timers_keep s s' \<longleftrightarrow>
     length (timers s) \<le> length (timers s') \<and>
     (\<forall>t task d. t < length (timers s) \<longrightarrow> activeTimer s' t = Some (task, d) \<longrightarrow>
        activeTimer s t = Some (task, d))"

definition requestAt :: "MCPClient \<Rightarrow> nat \<Rightarrow> bool" where
  "requestAt s t = (case activeTimer s t of None \<Rightarrow> False | Some x \<Rightarrow> isRequestTimeout (fst x))"

definition handles_ok :: "MCPClient \<Rightarrow> bool" where
  "handles_ok s \<longleftrightarrow>
     (\<forall>k \<in> set (sockets s). connectionTimeout k < length (timers s) \<and>
        \<not> requestAt s (connectionTimeout k)) \<and>
     (\<forall>t. heartbeatInterval s = Some t \<longrightarrow> t < length (timers s) \<and> \<not> requestAt s t)"

definition quiet :: "MCPClient \<Rightarrow> MCPClient \<Rightarrow> bool" where
  "quiet s s' \<longleftrightarrow>
     frame s s' \<and> handles_ok s' \<and>
     (\<forall>t. requestAt s t \<longrightarrow> activeTimer s' t = activeTimer s t)"

definition armed :: "MCPClient \<Rightarrow> bool" where
  "armed s \<longleftrightarrow>
     (\<forall>i pe. (i, pe) \<in> set (pendingRequests s) \<longrightarrow>
        (\<exists>m d. activeTimer s (timer pe) = Some (RequestTimeout i m (promise pe), d)))"

text \<open>Concrete inputs on which the theorems below are run.\<close>

definition example_host :: HostInputs where
  "example_host = \<lparr>h_supported = True, h_constructed = True, h_now = 12345, h_thrown = None\<rparr>"

definition connected_example :: MCPClient where
  "connected_example =
     run [CallConnect True True, SocketOpen 0]
       (constructor None None (no_overrides\<lparr>p_timeout := Some 2000\<rparr>))"

definition backoff_example :: MCPClient where
  "backoff_example =
     run [CallConnect True True, SocketOpen 0, SocketClose 0 1001,
          TimerFires 2 example_host, SocketError 1]
       (constructor None None (no_overrides\<lparr>p_retryAttempts := Some 3, p_retryDelay := Some 1000\<rparr>))"

definition ping_example :: MCPMessage where
  "ping_example = \<lparr>msg_id = ''mcp_12345_1'', msg_type = Request, msg_method = Some ''system.ping'',
      msg_params = Some ''{timestamp: 12345}'', msg_result = None, msg_error = None,
      msg_timestamp = 12345\<rparr>"

definition exhausted_example :: MCPClient where
  "exhausted_example =
     run [SocketClose 1 1006, TimerFires 4 example_host, SocketError 2] backoff_example"

definition open_timeout_example :: MCPClient where
  "open_timeout_example =
     run [CallConnect True True, TimerFires 0 example_host] (constructor None None no_overrides)"

definition open_timeout_closed_example :: MCPClient where
  "open_timeout_closed_example =
     run [SocketError 0, SocketClose 0 1006] open_timeout_example"

definition fallback_off_example :: MCPClient where
  "fallback_off_example =
     run [CallConnect True True, SocketOpen 0, SocketClose 0 1001]
       (constructor None None (no_overrides\<lparr>p_enableFallback := Some False\<rparr>))"

definition response_example :: "string \<Rightarrow> MCPMessage" where
  "response_example i = \<lparr>msg_id = i, msg_type = Response, msg_method = None,
      msg_params = None, msg_result = Some ''{}'', msg_error = None, msg_timestamp = 200\<rparr>"

definition pending_example :: MCPClient where
  "pending_example =
     run [CallSendChatMessage ''hi'' 100 None, CallGetSystemHealth 101 None] connected_example"

definition outage_example :: MCPClient where
  "outage_example =
     run [CallConnect True True, SocketOpen 0, SocketClose 0 1001,
          TimerFires 2 example_host, SocketError 1, SocketClose 1 1006,
          TimerFires 4 example_host, SocketOpen 2,
          TimerFires 5 example_host, SocketOpen 3]
       (constructor None None no_overrides)"

definition settled_events :: "Event list" where
  "settled_events =
     [CallConnect True True, SocketOpen 0,
      CallSendChatMessage ''hi'' 100 None, CallGetSystemHealth 101 None,
      SocketMessage 0 (Some (response_example ''mcp_101_2'')),
      TimerFires 2 example_host,
      SocketMessage 0 (Some (response_example ''mcp_100_1'')),
      CallSendChatMessage ''again'' 102 None, CallGetSystemHealth 103 None,
      CallDisconnect]"

section \<open>Unfolding and evaluation\<close>

lemmas prim_defs = setTimeout_def clearTimeout_def activeTimer_def emit_def wsClose_def settleSend_def
  setConnectionState_def startHeartbeat_def stopHeartbeat_def resolveConnect_def

lemmas eval_defs = prim_defs run_def constructor_def no_overrides_def or_else_def
  isConnected_def generateMessageId_def mkId_def handleReconnection_def rejectConnect_def
  connect_def rejectPending_def disconnect_def method_text_def sendMessage_def request_def
  sendChatMessage_def getSystemHealth_def ping_def handleNotification_def
  handleIncomingMessage_def onopen_def onmessage_def onclose_def onerror_def
  requestTimeout_def connectTimeout_def heartbeat_def setReadyState_def fireTimer_def Let_def
  dec.simps digit_def

section \<open>Lemmas\<close>

subsection \<open>Message identifiers are injective in the counter\<close>

lemma digit_cases:
  assumes "d < (10::nat)"
  shows "d = 0 \<or> d = 1 \<or> d = 2 \<or> d = 3 \<or> d = 4 \<or> d = 5 \<or> d = 6 \<or> d = 7 \<or> d = 8 \<or> d = 9"
  using assms by arith

lemma digit_val_digit: "d < 10 \<Longrightarrow> digit_val (digit d) = d"
  using digit_cases [of d] by (auto simp add: digit_def digit_val_def)

lemma digit_not_underscore: "d < 10 \<Longrightarrow> digit d \<noteq> CHR ''_''"
  using digit_cases [of d] by (auto simp add: digit_def)

lemma undec_dec: "undec (dec n) = n"
proof (induction n rule: dec.induct)
  case (1 n)
  show ?case
  proof (cases "n < 10")
    case True
    then show ?thesis
      by (subst dec.simps) (simp add: undec_def digit_val_digit)
  next
    case False
    with 1 have "undec (dec (n div 10)) = n div 10" by simp
    with False show ?thesis
      by (subst dec.simps) (simp add: undec_def digit_val_digit)
  qed
qed

lemma dec_inj: "dec a = dec b \<Longrightarrow> a = b"
  by (metis undec_dec)

lemma dec_no_underscore: "CHR ''_'' \<notin> set (dec n)"
proof (induction n rule: dec.induct)
  case (1 n)
  show ?case
  proof (cases "n < 10")
    case True
    then show ?thesis
      using digit_not_underscore [of n] by (subst dec.simps) auto
  next
    case False
    with 1 have "CHR ''_'' \<notin> set (dec (n div 10))" by simp
    with False show ?thesis
      using digit_not_underscore [of "n mod 10"] by (subst dec.simps) auto
  qed
qed

lemma split_at_separator:
  assumes "xs @ c # ys = xs' @ c # ys'" and "c \<notin> set xs" and "c \<notin> set xs'"
  shows "xs = xs' \<and> ys = ys'"
  using assms
proof (induction xs arbitrary: xs')
  case Nil
  then show ?case by (cases xs') auto
next
  case (Cons x xs)
  then show ?case by (cases xs') auto
qed

lemma mkId_inj: "mkId a n = mkId b m \<Longrightarrow> a = b \<and> n = m"
  using split_at_separator [of "dec a" "CHR ''_''" "dec n" "dec b" "dec m"]
  by (auto simp add: mkId_def dec_no_underscore dest: dec_inj)

subsection \<open>Steps that leave the pending requests alone\<close>

text \<open>
  \<open>frame s s'\<close>: from \<open>s\<close> to \<open>s'\<close> the pending map, the calls of \<open>sendMessage\<close>, their
  settlements and the message counter are unchanged, no timer changed its task, and no
  request timer was added.
\<close>

lemma activeTimer_clearTimeout:
  "activeTimer (clearTimeout t s) x = (if x = t then None else activeTimer s x)"
  by (auto simp add: activeTimer_def clearTimeout_def)

lemma activeTimer_append:
  "activeTimer (s\<lparr>timers := timers s @ [e]\<rparr>) x =
     (if x = length (timers s) then e else activeTimer s x)"
  by (auto simp add: activeTimer_def nth_append)

lemma frame_refl: "frame s s"
  by (simp add: frame_def activeTimer_def)

lemma frameD:
  assumes "frame s s'" and "activeTimer s' t = Some x"
  shows "t < length (timers s) \<Longrightarrow> activeTimer s t = Some x"
    and "\<not> t < length (timers s) \<Longrightarrow> \<not> isRequestTimeout (fst x)"
  using assms by (cases x; simp add: frame_def)+

lemma frame_trans:
  assumes ab: "frame a b" and bc: "frame b c"
  shows "frame a c"
proof -
  have len: "length (timers a) \<le> length (timers b)" "length (timers b) \<le> length (timers c)"
    using ab bc by (simp_all add: frame_def)
  have "if t < length (timers a) then activeTimer a t = Some (task, d) else \<not> isRequestTimeout task"
    if c: "activeTimer c t = Some (task, d)" for t task d
  proof (cases "t < length (timers b)")
    case True
    then have b: "activeTimer b t = Some (task, d)" using frameD(1) [OF bc c] by simp
    show ?thesis using frameD [OF ab b] by simp
  next
    case False
    then have "\<not> isRequestTimeout task" using frameD(2) [OF bc c] by simp
    moreover have "\<not> t < length (timers a)" using False len by simp
    ultimately show ?thesis by simp
  qed
  then show ?thesis
    using ab bc len by (simp add: frame_def)
qed

lemma frame_cong:
  assumes "frame s s'" and "timers s'' = timers s'"
    and "pendingRequests s'' = pendingRequests s'" and "sendCalls s'' = sendCalls s'"
    and "sendSettled s'' = sendSettled s'" and "messageId s'' = messageId s'"
  shows "frame s s''"
proof -
  have "activeTimer s'' = activeTimer s'"
    using assms(2) by (simp add: activeTimer_def fun_eq_iff)
  with assms show ?thesis by (simp add: frame_def)
qed

lemma frame_fields:
  "frame s s' \<Longrightarrow> frame s (s'\<lparr>heartbeatInterval := h\<rparr>)"
  "frame s s' \<Longrightarrow> frame s (s'\<lparr>reconnectAttempts := n\<rparr>)"
  "frame s s' \<Longrightarrow> frame s (s'\<lparr>connectSettled := cs\<rparr>)"
  "frame s s' \<Longrightarrow> frame s (s'\<lparr>connectCalls := cc\<rparr>)"
  "frame s s' \<Longrightarrow> frame s (s'\<lparr>connectionState := st\<rparr>)"
  "frame s s' \<Longrightarrow> frame s (s'\<lparr>websocket := w\<rparr>)"
  "frame s s' \<Longrightarrow> frame s (s'\<lparr>sockets := k\<rparr>)"
  "frame s s' \<Longrightarrow> frame s (s'\<lparr>trace := tr\<rparr>)"
  by (erule frame_cong; simp)+

lemma frame_new_timer:
  assumes "frame s s'" and "ts = timers s'" and "\<not> isRequestTimeout task"
  shows "frame s (s'\<lparr>timers := ts @ [Some (task, d)]\<rparr>)"
proof -
  have "frame s' (s'\<lparr>timers := timers s' @ [Some (task, d)]\<rparr>)"
    using assms(3)
    by (auto simp add: frame_def activeTimer_append split: if_splits) (simp_all add: activeTimer_def)
  with assms(1) show ?thesis unfolding assms(2) by (rule frame_trans)
qed

lemma frame_clearTimeout: "frame s s' \<Longrightarrow> frame s (clearTimeout t s')"
proof (erule frame_trans)
  show "frame s' (clearTimeout t s')"
    by (auto simp add: frame_def activeTimer_clearTimeout split: if_splits)
      (simp_all add: clearTimeout_def activeTimer_def)
qed

lemma frame_emit: "frame s s' \<Longrightarrow> frame s (emit e s')"
  unfolding emit_def by (rule frame_fields)

lemma frame_setConnectionState: "frame s s' \<Longrightarrow> frame s (setConnectionState st s')"
  unfolding setConnectionState_def by (simp add: frame_emit frame_fields)

lemma frame_wsClose: "frame s s' \<Longrightarrow> frame s (wsClose w c s')"
  unfolding wsClose_def Let_def by (simp add: frame_emit frame_fields)

lemma frame_stopHeartbeat: "frame s s' \<Longrightarrow> frame s (stopHeartbeat s')"
  unfolding stopHeartbeat_def by (simp add: frame_clearTimeout frame_fields split: option.splits)

lemma frame_startHeartbeat: "frame s s' \<Longrightarrow> frame s (startHeartbeat s')"
  unfolding startHeartbeat_def setTimeout_def by (simp add: frame_new_timer frame_fields)

lemma frame_handleReconnection: "frame s s' \<Longrightarrow> frame s (handleReconnection s')"
  unfolding handleReconnection_def setTimeout_def Let_def
  by (simp add: frame_new_timer frame_fields frame_setConnectionState)

lemma frame_resolveConnect: "frame s s' \<Longrightarrow> frame s (resolveConnect p v s')"
  unfolding resolveConnect_def by (rule frame_fields)

lemma frame_rejectConnect: "frame s s' \<Longrightarrow> frame s (rejectConnect p err s')"
  unfolding rejectConnect_def Let_def
  by (simp add: frame_handleReconnection frame_fields)

lemma frame_setReadyState: "frame s s' \<Longrightarrow> frame s (setReadyState w r s')"
  unfolding setReadyState_def by (rule frame_fields)

lemma frame_connect: "frame s s' \<Longrightarrow> frame s (connect a b c s')"
  unfolding connect_def setTimeout_def Let_def
  by (simp add: frame_new_timer frame_fields frame_setConnectionState frame_resolveConnect
      frame_rejectConnect)

lemma frame_onopen: "frame s s' \<Longrightarrow> frame s (onopen w s')"
  unfolding onopen_def Let_def
  by (simp add: frame_clearTimeout frame_setConnectionState frame_fields frame_startHeartbeat
      frame_resolveConnect)

lemma frame_onclose: "frame s s' \<Longrightarrow> frame s (onclose w code s')"
  unfolding onclose_def Let_def
  by (simp add: frame_clearTimeout frame_setConnectionState frame_stopHeartbeat
      frame_handleReconnection)

lemma frame_onerror: "frame s s' \<Longrightarrow> frame s (onerror w s')"
  unfolding onerror_def Let_def
  by (simp add: frame_clearTimeout frame_setConnectionState frame_emit frame_rejectConnect)

lemma frame_connectTimeout: "frame s s' \<Longrightarrow> frame s (connectTimeout p s')"
  unfolding connectTimeout_def
  by (simp add: frame_rejectConnect frame_wsClose split: option.splits)

subsection \<open>The invariant of the pending requests\<close>

text \<open>
  \<open>correlated s\<close>: identifiers of calls are distinct and made by \<open>generateMessageId\<close>
  with a counter value already passed; a pending entry holds the promise of the call with
  its identifier, not yet settled; an active request timer belongs to the pending entry of
  its identifier; no promise is settled twice, and a promise not settled is pending.
\<close>

lemma correlated_frame:
  assumes "correlated s" and "frame s s'"
  shows "correlated s'"
proof -
  have eqs: "pendingRequests s' = pendingRequests s" "sendCalls s' = sendCalls s"
    "sendSettled s' = sendSettled s" "messageId s' = messageId s"
    using assms(2) by (simp_all add: frame_def)
  have "timers_ok s'"
    unfolding timers_ok_def
  proof (intro allI impI)
    fix t i m p d
    assume a: "activeTimer s' t = Some (RequestTimeout i m p, d)"
    have "t < length (timers s)"
      using frameD(2) [OF assms(2) a] by auto
    then have "activeTimer s t = Some (RequestTimeout i m p, d)"
      using frameD(1) [OF assms(2) a] by simp
    then show "map_of (pendingRequests s') i = Some \<lparr>promise = p, timer = t\<rparr>"
      using assms(1) by (simp add: correlated_def timers_ok_def eqs)
  qed
  moreover have "ids_ok s' = ids_ok s" "pending_ok s' = pending_ok s" "settled_ok s' = settled_ok s"
    unfolding ids_ok_def pending_ok_def settled_ok_def eqs by (rule refl)+
  ultimately show ?thesis
    using assms(1) by (simp add: correlated_def)
qed

lemma correlated_constructor: "correlated (constructor a b c)"
  by (simp add: correlated_def ids_ok_def pending_ok_def timers_ok_def settled_ok_def
      constructor_def activeTimer_def)

text \<open>A pending entry leaves the map and its promise is settled: response and timeout.\<close>

lemma correlated_complete:
  assumes c: "correlated s" and pe: "map_of (pendingRequests s) i = Some pe"
    and s': "pendingRequests s' = AList.delete i (pendingRequests s)"
      "sendCalls s' = sendCalls s" "messageId s' = messageId s"
      "sendSettled s' = sendSettled s @ [(promise pe, out)]"
      "\<And>x. activeTimer s' x = (if x = timer pe then None else activeTimer s x)"
  shows "correlated s'"
proof -
  from c have ids: "ids_ok s" and pend: "pending_ok s" and tim: "timers_ok s" and st: "settled_ok s"
    by (simp_all add: correlated_def)
  have mem: "(i, pe) \<in> set (pendingRequests s)"
    using pe by (rule map_of_SomeD)
  have dist: "distinct (map fst (pendingRequests s))"
    using pend by (simp add: pending_ok_def)
  have pe_facts: "promise pe < length (sendCalls s)" "msg_id (sendCalls s ! promise pe) = i"
    "promise pe \<notin> fst ` set (sendSettled s)"
    using pend mem by (auto simp add: pending_ok_def)
  have rest: "(j, q) \<in> set (pendingRequests s) \<and> j \<noteq> i"
    if "(j, q) \<in> set (AList.delete i (pendingRequests s))" for j q
    using that by (auto simp add: AList.delete_eq)
  have "ids_ok s'"
    using ids by (simp add: ids_ok_def s')
  moreover have "pending_ok s'"
    unfolding pending_ok_def
  proof (intro conjI allI impI)
    show "distinct (map fst (pendingRequests s'))"
      using dist by (simp add: s' distinct_delete)
  next
    fix j q assume "(j, q) \<in> set (pendingRequests s')"
    then have jq: "(j, q) \<in> set (pendingRequests s)" "j \<noteq> i"
      using rest by (simp_all add: s')
    then have q: "promise q < length (sendCalls s)" "msg_id (sendCalls s ! promise q) = j"
      "promise q \<notin> fst ` set (sendSettled s)"
      using pend by (auto simp add: pending_ok_def)
    show "promise q < length (sendCalls s')" using q by (simp add: s')
    show "msg_id (sendCalls s' ! promise q) = j" using q by (simp add: s')
    have "promise q \<noteq> promise pe" using q(2) pe_facts(2) jq(2) by auto
    then show "promise q \<notin> fst ` set (sendSettled s')" using q(3) by (simp add: s')
  qed
  moreover have "timers_ok s'"
    unfolding timers_ok_def
  proof (intro allI impI)
    fix t j m p d
    assume a: "activeTimer s' t = Some (RequestTimeout j m p, d)"
    then have t: "t \<noteq> timer pe" and old: "activeTimer s t = Some (RequestTimeout j m p, d)"
      by (auto simp add: s' split: if_splits)
    from tim old have m: "map_of (pendingRequests s) j = Some \<lparr>promise = p, timer = t\<rparr>"
      by (simp add: timers_ok_def)
    have "j \<noteq> i" using m pe t by auto
    then show "map_of (pendingRequests s') j = Some \<lparr>promise = p, timer = t\<rparr>"
      using m by (simp add: s')
  qed
  moreover have "settled_ok s'"
    unfolding settled_ok_def
  proof (intro conjI allI impI ballI)
    show "distinct (map fst (sendSettled s'))"
      using st pe_facts(3) by (simp add: settled_ok_def s')
  next
    fix p assume "p \<in> fst ` set (sendSettled s')"
    then show "p < length (sendCalls s')"
      using st pe_facts(1) by (auto simp add: settled_ok_def s')
  next
    fix p assume "p < length (sendCalls s')"
    then have p: "p < length (sendCalls s)" by (simp add: s')
    moreover have "\<forall>p < length (sendCalls s). p \<in> fst ` set (sendSettled s) \<or>
        (\<exists>t. map_of (pendingRequests s) (msg_id (sendCalls s ! p)) = Some \<lparr>promise = p, timer = t\<rparr>)"
      using st by (simp add: settled_ok_def)
    ultimately consider "p \<in> fst ` set (sendSettled s)"
      | t where "map_of (pendingRequests s) (msg_id (sendCalls s ! p)) = Some \<lparr>promise = p, timer = t\<rparr>"
      by blast
    then show "p \<in> fst ` set (sendSettled s') \<or>
        (\<exists>t. map_of (pendingRequests s') (msg_id (sendCalls s' ! p)) = Some \<lparr>promise = p, timer = t\<rparr>)"
    proof cases
      case 1
      then show ?thesis by (simp add: s')
    next
      case 2
      show ?thesis
      proof (cases "msg_id (sendCalls s ! p) = i")
        case True
        with 2 pe have "promise pe = p" by auto
        then show ?thesis by (simp add: s')
      next
        case False
        with 2 show ?thesis by (simp add: s')
      qed
    qed
  qed
  ultimately show ?thesis by (simp add: correlated_def)
qed

lemma update_fresh: "i \<notin> fst ` set ps \<Longrightarrow> AList.update i v ps = ps @ [(i, v)]"
  by (induction ps) auto

text \<open>A new call of \<open>sendMessage\<close> that is settled at once: not connected, or \<open>send\<close> threw.\<close>

lemma correlated_rejected_call:
  assumes c: "correlated s" and fresh: "msg_id m \<notin> msg_id ` set (sendCalls s)"
    and gen: "msg_id m = mkId clock n" "n \<le> messageId s"
    and s': "pendingRequests s' = pendingRequests s"
      "sendCalls s' = sendCalls s @ [m]" "messageId s' = messageId s"
      "sendSettled s' = sendSettled s @ [(length (sendCalls s), out)]"
      "\<And>x task d. activeTimer s' x = Some (task, d) \<Longrightarrow> activeTimer s x = Some (task, d)"
  shows "correlated s'"
proof -
  from c have ids: "ids_ok s" and pend: "pending_ok s" and tim: "timers_ok s" and st: "settled_ok s"
    by (simp_all add: correlated_def)
  have range: "p < length (sendCalls s)" if "p \<in> fst ` set (sendSettled s)" for p
    using st that by (auto simp add: settled_ok_def)
  have "ids_ok s'"
    using ids fresh gen by (auto simp add: ids_ok_def s')
  moreover have "pending_ok s'"
    unfolding pending_ok_def
  proof (intro conjI allI impI)
    show "distinct (map fst (pendingRequests s'))"
      using pend by (simp add: pending_ok_def s')
  next
    fix j q assume "(j, q) \<in> set (pendingRequests s')"
    then have q: "promise q < length (sendCalls s)" "msg_id (sendCalls s ! promise q) = j"
      "promise q \<notin> fst ` set (sendSettled s)"
      using pend by (auto simp add: pending_ok_def s')
    show "promise q < length (sendCalls s')" using q by (simp add: s')
    show "msg_id (sendCalls s' ! promise q) = j" using q by (simp add: s' nth_append)
    show "promise q \<notin> fst ` set (sendSettled s')" using q by (simp add: s')
  qed
  moreover have "timers_ok s'"
    using tim s'(5) by (simp add: timers_ok_def s'(1))
  moreover have "settled_ok s'"
    unfolding settled_ok_def
  proof (intro conjI allI impI ballI)
    show "distinct (map fst (sendSettled s'))"
      using st range by (auto simp add: settled_ok_def s')
  next
    fix p assume "p \<in> fst ` set (sendSettled s')"
    then show "p < length (sendCalls s')"
      using range by (auto simp add: s' less_Suc_eq)
  next
    fix p assume "p < length (sendCalls s')"
    then consider "p = length (sendCalls s)" | "p < length (sendCalls s)"
      by (auto simp add: s' less_Suc_eq)
    then show "p \<in> fst ` set (sendSettled s') \<or>
        (\<exists>t. map_of (pendingRequests s') (msg_id (sendCalls s' ! p)) = Some \<lparr>promise = p, timer = t\<rparr>)"
    proof cases
      case 1
      then show ?thesis by (simp add: s')
    next
      case 2
      then show ?thesis
        using st by (auto simp add: settled_ok_def s' nth_append)
    qed
  qed
  ultimately show ?thesis by (simp add: correlated_def)
qed

text \<open>A new call of \<open>sendMessage\<close> that registers its pending entry and its timer.\<close>

lemma correlated_registered_call:
  assumes c: "correlated s" and fresh: "msg_id m \<notin> msg_id ` set (sendCalls s)"
    and gen: "msg_id m = mkId clock n" "n \<le> messageId s"
    and s': "pendingRequests s' = AList.update (msg_id m)
               \<lparr>promise = length (sendCalls s), timer = length (timers s)\<rparr> (pendingRequests s)"
      "sendCalls s' = sendCalls s @ [m]" "messageId s' = messageId s"
      "sendSettled s' = sendSettled s"
      "\<And>x. activeTimer s' x =
         (if x = length (timers s)
          then Some (RequestTimeout (msg_id m) meth (length (sendCalls s)), d0)
          else activeTimer s x)"
  shows "correlated s'"
proof -
  from c have ids: "ids_ok s" and pend: "pending_ok s" and tim: "timers_ok s" and st: "settled_ok s"
    by (simp_all add: correlated_def)
  have range: "p < length (sendCalls s)" if "p \<in> fst ` set (sendSettled s)" for p
    using st that by (auto simp add: settled_ok_def)
  have keys: "j \<in> msg_id ` set (sendCalls s)" if "(j, q) \<in> set (pendingRequests s)" for j q
  proof -
    have "promise q < length (sendCalls s)" "msg_id (sendCalls s ! promise q) = j"
      using pend that by (auto simp add: pending_ok_def)
    then show ?thesis by (metis imageI nth_mem)
  qed
  have nokey: "msg_id m \<notin> fst ` set (pendingRequests s)"
    using keys fresh by auto
  have upd: "pendingRequests s' = pendingRequests s @
      [(msg_id m, \<lparr>promise = length (sendCalls s), timer = length (timers s)\<rparr>)]"
    using nokey by (simp add: s' update_fresh)
  have look: "map_of (pendingRequests s') j =
      (if j = msg_id m then Some \<lparr>promise = length (sendCalls s), timer = length (timers s)\<rparr>
       else map_of (pendingRequests s) j)" for j
    by (simp add: s' update_conv')
  have "ids_ok s'"
    using ids fresh gen by (auto simp add: ids_ok_def s')
  moreover have "pending_ok s'"
    unfolding pending_ok_def
  proof (rule conjI; (intro allI impI)?)
    show "distinct (map fst (pendingRequests s'))"
      using pend by (simp add: pending_ok_def s' distinct_update)
  next
    fix j q assume "(j, q) \<in> set (pendingRequests s')"
    then consider "(j, q) \<in> set (pendingRequests s)"
      | "j = msg_id m" "q = \<lparr>promise = length (sendCalls s), timer = length (timers s)\<rparr>"
      by (auto simp add: upd)
    then show "promise q < length (sendCalls s') \<and> msg_id (sendCalls s' ! promise q) = j \<and>
        promise q \<notin> fst ` set (sendSettled s')"
    proof cases
      case 1
      then have "promise q < length (sendCalls s)" "msg_id (sendCalls s ! promise q) = j"
        "promise q \<notin> fst ` set (sendSettled s)"
        using pend by (auto simp add: pending_ok_def)
      then show ?thesis by (simp add: s' nth_append)
    next
      case 2
      then show ?thesis using range by (auto simp add: s')
    qed
  qed
  moreover have "timers_ok s'"
    unfolding timers_ok_def
  proof (intro allI impI)
    fix t j mm p d
    assume a: "activeTimer s' t = Some (RequestTimeout j mm p, d)"
    show "map_of (pendingRequests s') j = Some \<lparr>promise = p, timer = t\<rparr>"
    proof (cases "t = length (timers s)")
      case True
      with a show ?thesis by (simp add: s'(5) look)
    next
      case False
      with a have "activeTimer s t = Some (RequestTimeout j mm p, d)" by (simp add: s'(5))
      with tim have old: "map_of (pendingRequests s) j = Some \<lparr>promise = p, timer = t\<rparr>"
        by (simp add: timers_ok_def)
      then have "j \<in> fst ` set (pendingRequests s)"
        by (metis map_of_SomeD fst_conv imageI)
      with nokey have "j \<noteq> msg_id m" by blast
      with old show ?thesis by (simp add: look)
    qed
  qed
  moreover have "settled_ok s'"
    unfolding settled_ok_def
  proof (intro conjI allI impI ballI)
    show "distinct (map fst (sendSettled s'))"
      using st by (simp add: settled_ok_def s')
  next
    fix p assume "p \<in> fst ` set (sendSettled s')"
    then show "p < length (sendCalls s')"
      using range by (auto simp add: s' less_Suc_eq)
  next
    fix p assume "p < length (sendCalls s')"
    then consider "p = length (sendCalls s)" | "p < length (sendCalls s)"
      by (auto simp add: s' less_Suc_eq)
    then show "p \<in> fst ` set (sendSettled s') \<or>
        (\<exists>t. map_of (pendingRequests s') (msg_id (sendCalls s' ! p)) = Some \<lparr>promise = p, timer = t\<rparr>)"
    proof cases
      case 1
      then show ?thesis by (simp add: s'(2) look)
    next
      case 2
      then have ne: "msg_id (sendCalls s ! p) \<noteq> msg_id m"
        using fresh by (metis imageI nth_mem)
      have "\<forall>p < length (sendCalls s). p \<in> fst ` set (sendSettled s) \<or>
          (\<exists>t. map_of (pendingRequests s) (msg_id (sendCalls s ! p)) = Some \<lparr>promise = p, timer = t\<rparr>)"
        using st by (simp add: settled_ok_def)
      with 2 consider "p \<in> fst ` set (sendSettled s)"
        | t where "map_of (pendingRequests s) (msg_id (sendCalls s ! p)) = Some \<lparr>promise = p, timer = t\<rparr>"
        by blast
      then show ?thesis
      proof cases
        case 1
        then show ?thesis by (simp add: s')
      next
        case 2
        with \<open>p < length (sendCalls s)\<close> ne show ?thesis
          by (simp add: s'(2) look nth_append)
      qed
    qed
  qed
  ultimately show ?thesis by (simp add: correlated_def)
qed

lemma rejectPending_fields:
  "pendingRequests (fold rejectPending ps s) = pendingRequests s"
  "sendCalls (fold rejectPending ps s) = sendCalls s"
  "messageId (fold rejectPending ps s) = messageId s"
  "connectionState (fold rejectPending ps s) = connectionState s"
  "heartbeatInterval (fold rejectPending ps s) = heartbeatInterval s"
  "websocket (fold rejectPending ps s) = websocket s"
  "trace (fold rejectPending ps s) = trace s"
  "sendSettled (fold rejectPending ps s) =
     sendSettled s @ map (\<lambda>e. (promise (snd e), Rejected ''Connection closed'')) ps"
  by (induction ps arbitrary: s; simp add: rejectPending_def settleSend_def clearTimeout_def)+

lemma activeTimer_settleSend: "activeTimer (settleSend p out s) x = activeTimer s x"
  by (simp add: settleSend_def activeTimer_def)

lemma rejectPending_timers:
  "activeTimer (fold rejectPending ps s) x =
     (if x \<in> (\<lambda>e. timer (snd e)) ` set ps then None else activeTimer s x)"
proof (induction ps arbitrary: s)
  case Nil
  show ?case by simp
next
  case (Cons e ps)
  have "activeTimer (rejectPending e s) y = (if y = timer (snd e) then None else activeTimer s y)" for y
    by (simp add: rejectPending_def activeTimer_settleSend activeTimer_clearTimeout)
  then show ?case
    using Cons.IH [of "rejectPending e s"] by auto
qed

text \<open>Every pending entry is rejected and the map is cleared: \<open>disconnect\<close>.\<close>

lemma correlated_rejectAll:
  assumes c: "correlated s"
    and s': "pendingRequests s' = []"
      "sendCalls s' = sendCalls s" "messageId s' = messageId s"
      "sendSettled s' = sendSettled s @ map (\<lambda>e. (promise (snd e), out)) (pendingRequests s)"
      "\<And>x. activeTimer s' x =
         (if x \<in> (\<lambda>e. timer (snd e)) ` set (pendingRequests s) then None else activeTimer s x)"
  shows "correlated s'"
proof -
  from c have ids: "ids_ok s" and pend: "pending_ok s" and tim: "timers_ok s" and st: "settled_ok s"
    by (simp_all add: correlated_def)
  let ?ps = "pendingRequests s"
  have ent: "promise (snd e) < length (sendCalls s) \<and>
      msg_id (sendCalls s ! promise (snd e)) = fst e \<and>
      promise (snd e) \<notin> fst ` set (sendSettled s)" if "e \<in> set ?ps" for e
    using pend that by (cases e) (auto simp add: pending_ok_def)
  have dist: "distinct (map fst ?ps)"
    using pend by (simp add: pending_ok_def)
  have inj: "inj_on (\<lambda>e. promise (snd e)) (set ?ps)"
  proof (rule inj_onI)
    fix a b assume ab: "a \<in> set ?ps" "b \<in> set ?ps" "promise (snd a) = promise (snd b)"
    then have "fst a = fst b" using ent [of a] ent [of b] by simp
    moreover have "inj_on fst (set ?ps)" using dist by (simp add: distinct_map)
    ultimately show "a = b" using ab by (simp add: inj_on_def)
  qed
  have unsettled: "(promise (snd e), y) \<notin> set (sendSettled s)" if "e \<in> set ?ps" for e y
    using ent [OF that] by (metis fst_conv imageI)
  have img: "fst ` set (sendSettled s') =
      fst ` set (sendSettled s) \<union> (\<lambda>e. promise (snd e)) ` set ?ps"
    by (simp add: s' image_Un image_image)
  have "ids_ok s'"
    using ids by (simp add: ids_ok_def s')
  moreover have "pending_ok s'"
    by (simp add: pending_ok_def s')
  moreover have "timers_ok s'"
    unfolding timers_ok_def
  proof (intro allI impI)
    fix t j m p d
    assume a: "activeTimer s' t = Some (RequestTimeout j m p, d)"
    then have t: "t \<notin> (\<lambda>e. timer (snd e)) ` set ?ps"
      and old: "activeTimer s t = Some (RequestTimeout j m p, d)"
      by (auto simp add: s'(5) split: if_splits)
    from tim old have "map_of ?ps j = Some \<lparr>promise = p, timer = t\<rparr>"
      by (simp add: timers_ok_def)
    then have "(j, \<lparr>promise = p, timer = t\<rparr>) \<in> set ?ps" by (rule map_of_SomeD)
    then have "t \<in> (\<lambda>e. timer (snd e)) ` set ?ps" by force
    with t show "map_of (pendingRequests s') j = Some \<lparr>promise = p, timer = t\<rparr>" by simp
  qed
  moreover have "settled_ok s'"
    unfolding settled_ok_def
  proof (intro conjI allI impI ballI)
    have "distinct (map (\<lambda>e. promise (snd e)) ?ps)"
      using dist inj by (simp add: distinct_map)
    moreover have "fst ` set (sendSettled s) \<inter> (\<lambda>e. promise (snd e)) ` set ?ps = {}"
      using unsettled by auto
    ultimately show "distinct (map fst (sendSettled s'))"
      using st by (simp add: settled_ok_def s' comp_def image_image)
  next
    fix p assume "p \<in> fst ` set (sendSettled s')"
    then consider "p \<in> fst ` set (sendSettled s)" | e where "e \<in> set ?ps" "p = promise (snd e)"
      unfolding img by blast
    then show "p < length (sendCalls s')"
    proof cases
      case 1
      then show ?thesis using st by (auto simp add: settled_ok_def s')
    next
      case 2
      then show ?thesis using ent [of e] by (simp add: s')
    qed
  next
    fix p assume "p < length (sendCalls s')"
    then have p: "p < length (sendCalls s)" by (simp add: s')
    moreover have "\<forall>p < length (sendCalls s). p \<in> fst ` set (sendSettled s) \<or>
        (\<exists>t. map_of ?ps (msg_id (sendCalls s ! p)) = Some \<lparr>promise = p, timer = t\<rparr>)"
      using st by (simp add: settled_ok_def)
    ultimately consider "p \<in> fst ` set (sendSettled s)"
      | t where "map_of ?ps (msg_id (sendCalls s ! p)) = Some \<lparr>promise = p, timer = t\<rparr>"
      by blast
    then have "p \<in> fst ` set (sendSettled s')"
    proof cases
      case 1
      then show ?thesis unfolding img by blast
    next
      case 2
      then have "(msg_id (sendCalls s ! p), \<lparr>promise = p, timer = t\<rparr>) \<in> set ?ps"
        by (rule map_of_SomeD)
      then have "p \<in> (\<lambda>e. promise (snd e)) ` set ?ps" by force
      then show ?thesis unfolding img by blast
    qed
    then show "p \<in> fst ` set (sendSettled s') \<or>
        (\<exists>t. map_of (pendingRequests s') (msg_id (sendCalls s' ! p)) = Some \<lparr>promise = p, timer = t\<rparr>)"
      by simp
  qed
  ultimately show ?thesis by (simp add: correlated_def)
qed

lemma sendMessage_not_connected:
  "\<not> isConnected s \<Longrightarrow>
   sendMessage m thrown s =
     s\<lparr>sendCalls := sendCalls s @ [m],
       sendSettled := sendSettled s @ [(length (sendCalls s), Rejected ''MCP client not connected'')]\<rparr>"
  by (auto simp add: sendMessage_def isConnected_def settleSend_def Let_def split: option.splits)

lemma sendMessage_sent:
  assumes "isConnected s"
  shows "sendMessage m None s =
     s\<lparr>sendCalls := sendCalls s @ [m],
       timers := timers s @ [Some (RequestTimeout (msg_id m) (msg_method m) (length (sendCalls s)),
                                  timeout (config s))],
       pendingRequests := AList.update (msg_id m)
          \<lparr>promise = length (sendCalls s), timer = length (timers s)\<rparr> (pendingRequests s),
       trace := trace s @ [WsSend (the (websocket s)) m]\<rparr>"
  using assms
  by (auto simp add: sendMessage_def isConnected_def setTimeout_def emit_def Let_def
      split: option.splits)

lemma sendMessage_thrown:
  assumes "isConnected s"
  shows "sendMessage m (Some err) s =
     s\<lparr>sendCalls := sendCalls s @ [m],
       timers := timers s @ [None],
       pendingRequests := AList.delete (msg_id m) (pendingRequests s),
       sendSettled := sendSettled s @ [(length (sendCalls s), Rejected err)]\<rparr>"
  using assms
  by (auto simp add: sendMessage_def isConnected_def setTimeout_def settleSend_def clearTimeout_def
      Let_def delete_update_same split: option.splits)

lemma correlated_sendMessage:
  assumes c: "correlated s" and fresh: "msg_id m \<notin> msg_id ` set (sendCalls s)"
    and gen: "msg_id m = mkId clock n" "n \<le> messageId s"
  shows "correlated (sendMessage m thrown s)"
proof (cases "isConnected s")
  case False
  show ?thesis
    by (rule correlated_rejected_call [OF c fresh gen])
      (auto simp add: sendMessage_not_connected [OF False] activeTimer_def split: if_splits)
next
  case True
  show ?thesis
  proof (cases thrown)
    case None
    show ?thesis
      unfolding None
      by (rule correlated_registered_call [OF c fresh gen,
            where meth = "msg_method m" and ?d0.0 = "timeout (config s)"])
        (auto simp add: sendMessage_sent [OF True] activeTimer_def nth_append)
  next
    case (Some err)
    have nokey: "msg_id m \<notin> fst ` set (pendingRequests s)"
    proof
      assume "msg_id m \<in> fst ` set (pendingRequests s)"
      then obtain pe where "(msg_id m, pe) \<in> set (pendingRequests s)" by auto
      with c have "promise pe < length (sendCalls s)" "msg_id (sendCalls s ! promise pe) = msg_id m"
        by (auto simp add: correlated_def pending_ok_def)
      with fresh show False by (metis imageI nth_mem)
    qed
    show ?thesis
      unfolding Some
      by (rule correlated_rejected_call [OF c fresh gen])
        (use nokey in \<open>auto simp add: sendMessage_thrown [OF True] activeTimer_def nth_append
            split: if_splits\<close>)
  qed
qed

lemma correlated_request:
  assumes c: "correlated s"
  shows "correlated (request meth params clock thrown s)"
proof -
  let ?s1 = "s\<lparr>messageId := messageId s + 1\<rparr>"
  let ?i = "mkId clock (messageId s + 1)"
  have "frame s s" by (rule frame_refl)
  have act: "activeTimer ?s1 = activeTimer s"
    by (simp add: activeTimer_def fun_eq_iff)
  have "ids_ok ?s1"
    unfolding ids_ok_def
  proof (intro conjI ballI)
    show "distinct (map msg_id (sendCalls ?s1))"
      using c by (simp add: correlated_def ids_ok_def)
  next
    fix m assume "m \<in> set (sendCalls ?s1)"
    then obtain c' n' where "msg_id m = mkId c' n'" "n' \<le> messageId s"
      using c by (auto simp add: correlated_def ids_ok_def)
    then have "msg_id m = mkId c' n' \<and> n' \<le> messageId ?s1" by simp
    then show "\<exists>clock n. msg_id m = mkId clock n \<and> n \<le> messageId ?s1" by blast
  qed
  moreover have "pending_ok ?s1 = pending_ok s" "timers_ok ?s1 = timers_ok s"
    "settled_ok ?s1 = settled_ok s"
    unfolding pending_ok_def timers_ok_def settled_ok_def act by simp_all
  ultimately have c1: "correlated ?s1"
    using c by (simp add: correlated_def)
  have fresh: "?i \<notin> msg_id ` set (sendCalls ?s1)"
  proof
    assume "?i \<in> msg_id ` set (sendCalls ?s1)"
    then obtain m where m: "m \<in> set (sendCalls s)" "msg_id m = ?i" by auto
    have "\<forall>m \<in> set (sendCalls s). \<exists>c' n'. msg_id m = mkId c' n' \<and> n' \<le> messageId s"
      using c by (simp add: correlated_def ids_ok_def)
    with m obtain c' n' where "?i = mkId c' n'" "n' \<le> messageId s"
      by metis
    then show False using mkId_inj [of clock "messageId s + 1" c' n'] by simp
  qed
  show ?thesis
    unfolding request_def generateMessageId_def Let_def
    using correlated_sendMessage [OF c1, where clock = clock and n = "messageId s + 1"] fresh
    by simp
qed

lemma correlated_disconnect:
  assumes c: "correlated s"
  shows "correlated (disconnect s)"
proof -
  define s2 where "s2 = (case websocket (stopHeartbeat s) of None \<Rightarrow> stopHeartbeat s
      | Some w \<Rightarrow> (wsClose w (Some 1000) (stopHeartbeat s))\<lparr>websocket := None\<rparr>)"
  define s4 where "s4 = (fold rejectPending (pendingRequests s2) s2)\<lparr>pendingRequests := []\<rparr>"
  have "frame s s2"
    unfolding s2_def
    by (simp add: frame_stopHeartbeat frame_wsClose frame_fields frame_refl split: option.splits)
  with c have c2: "correlated s2" by (rule correlated_frame)
  have act: "activeTimer (k\<lparr>pendingRequests := []\<rparr>) x = activeTimer k x" for k x
    by (simp add: activeTimer_def)
  have "correlated s4"
    by (rule correlated_rejectAll [OF c2, where out = "Rejected ''Connection closed''"])
      (simp_all add: s4_def rejectPending_fields act rejectPending_timers)
  moreover have "frame s4 (setConnectionState Disconnected s4)"
    by (simp add: frame_setConnectionState frame_refl)
  ultimately have "correlated (setConnectionState Disconnected s4)"
    by (rule correlated_frame)
  then show ?thesis
    by (simp add: disconnect_def Let_def s4_def s2_def)
qed

lemma correlated_handleIncomingMessage:
  assumes c: "correlated s"
  shows "correlated (handleIncomingMessage m s)"
proof -
  have resp: "correlated (settleSend (promise pe) out
      ((clearTimeout (timer pe) s)\<lparr>pendingRequests :=
          AList.delete (msg_id m) (pendingRequests (clearTimeout (timer pe) s))\<rparr>))"
    if "map_of (pendingRequests s) (msg_id m) = Some pe" for pe out
    by (rule correlated_complete [OF c that, where out = out])
      (auto simp add: settleSend_def clearTimeout_def activeTimer_def)
  have notif: "correlated (handleNotification m s)"
    unfolding handleNotification_def
    using correlated_disconnect [OF c] correlated_frame [OF c frame_emit [OF frame_refl]]
    by simp
  show ?thesis
    unfolding handleIncomingMessage_def Let_def
    using c resp notif by (simp split: option.splits)
qed

lemma correlated_fireTimer:
  assumes c: "correlated s"
  shows "correlated (fireTimer t h s)"
proof (cases "activeTimer s t")
  case None
  with c show ?thesis by (simp add: fireTimer_def)
next
  case (Some a)
  obtain task d where a: "a = (task, d)" by (cases a)
  show ?thesis
  proof (cases task)
    case (RequestTimeout i meth p)
    with Some a c have pe: "map_of (pendingRequests s) i = Some \<lparr>promise = p, timer = t\<rparr>"
      by (simp add: correlated_def timers_ok_def)
    have "correlated (requestTimeout i meth p (clearTimeout t s))"
      by (rule correlated_complete [OF c pe,
            where out = "Rejected (''MCP request timeout: '' @ method_text meth)"])
        (auto simp add: requestTimeout_def settleSend_def clearTimeout_def activeTimer_def)
    with Some a RequestTimeout show ?thesis by (simp add: fireTimer_def)
  next
    case (ConnectionTimeout p)
    have "frame s (connectTimeout p (clearTimeout t s))"
      by (intro frame_connectTimeout frame_clearTimeout frame_refl)
    with c have "correlated (connectTimeout p (clearTimeout t s))" by (rule correlated_frame)
    with Some a ConnectionTimeout show ?thesis by (simp add: fireTimer_def)
  next
    case ReconnectTimer
    have "frame s (connect x y True (clearTimeout t s))" for x y
      by (intro frame_connect frame_clearTimeout frame_refl)
    with c have "correlated (connect x y True (clearTimeout t s))" for x y
      by (rule correlated_frame)
    with Some a ReconnectTimer show ?thesis by (simp add: fireTimer_def)
  next
    case HeartbeatInterval
    have "correlated (heartbeat x y s)" for x y
      using c correlated_request [OF c] by (simp add: heartbeat_def ping_def)
    with Some a HeartbeatInterval show ?thesis by (simp add: fireTimer_def)
  qed
qed

lemma correlated_step:
  assumes c: "correlated s"
  shows "correlated (step e s)"
proof (cases e)
  case (CallConnect x y)
  then show ?thesis using correlated_frame [OF c frame_connect [OF frame_refl]] by simp
next
  case CallDisconnect
  then show ?thesis using correlated_disconnect [OF c] by simp
next
  case (CallSendChatMessage params clock thr)
  then show ?thesis
    using correlated_request [OF c] correlated_frame [OF c frame_emit [OF frame_refl]]
    by (simp add: sendChatMessage_def)
next
  case (CallGetSystemHealth clock thr)
  then show ?thesis
    using correlated_request [OF c] correlated_frame [OF c frame_emit [OF frame_refl]]
    by (simp add: getSystemHealth_def)
next
  case (SocketOpen w)
  then show ?thesis
    using c correlated_frame [OF c frame_onopen [OF frame_setReadyState [OF frame_refl]]] by simp
next
  case (SocketMessage w parsed)
  then show ?thesis
    using c correlated_handleIncomingMessage [OF c] by (simp add: onmessage_def split: option.splits)
next
  case (SocketClose w code)
  then show ?thesis
    using c correlated_frame [OF c frame_onclose [OF frame_setReadyState [OF frame_refl]]] by simp
next
  case (SocketError w)
  then show ?thesis
    using c correlated_frame [OF c frame_onerror [OF frame_refl]] by simp
next
  case (TimerFires t h)
  then show ?thesis using correlated_fireTimer [OF c] by simp
qed

lemma correlated_run: "correlated s \<Longrightarrow> correlated (run es s)"
  unfolding run_def
  by (induction es arbitrary: s) (simp_all add: correlated_step)

subsection \<open>Timers keep their task\<close>

lemma keep_refl: "timers_keep s s"
  by (simp add: timers_keep_def)

lemma keep_trans: "timers_keep a b \<Longrightarrow> timers_keep b c \<Longrightarrow> timers_keep a c"
  unfolding timers_keep_def by (meson le_trans less_le_trans)

lemma keep_frame: "frame s s' \<Longrightarrow> timers_keep s s'"
  unfolding timers_keep_def frame_def by metis

lemma keep_timers_eq: "timers s' = timers s \<Longrightarrow> timers_keep s s'"
  by (simp add: timers_keep_def activeTimer_def)

lemma keep_sendMessage: "timers_keep s (sendMessage m thrown s)"
proof (cases "isConnected s")
  case False
  then show ?thesis by (simp add: sendMessage_not_connected keep_timers_eq)
next
  case True
  then show ?thesis
    by (cases thrown)
      (auto simp add: sendMessage_sent sendMessage_thrown timers_keep_def activeTimer_def nth_append)
qed

lemma keep_request: "timers_keep s (request meth params clock thrown s)"
  unfolding request_def generateMessageId_def Let_def
  by (simp add: keep_trans [OF keep_timers_eq keep_sendMessage])

lemma keep_complete:
  "timers_keep s (settleSend p out ((clearTimeout t s)\<lparr>pendingRequests := ps\<rparr>))"
proof -
  have "activeTimer (settleSend p out ((clearTimeout t s)\<lparr>pendingRequests := ps\<rparr>)) x =
      activeTimer (clearTimeout t s) x" for x
    by (simp add: settleSend_def activeTimer_def)
  then show ?thesis
    by (simp add: timers_keep_def activeTimer_clearTimeout)
      (simp add: settleSend_def clearTimeout_def)
qed

lemma rejectPending_length: "length (timers (fold rejectPending ps s)) = length (timers s)"
  by (induction ps arbitrary: s) (simp_all add: rejectPending_def settleSend_def clearTimeout_def)

lemma keep_disconnect: "timers_keep s (disconnect s)"
proof -
  define s2 where "s2 = (case websocket (stopHeartbeat s) of None \<Rightarrow> stopHeartbeat s
      | Some w \<Rightarrow> (wsClose w (Some 1000) (stopHeartbeat s))\<lparr>websocket := None\<rparr>)"
  define s3 where "s3 = fold rejectPending (pendingRequests s2) s2"
  have "frame s s2"
    unfolding s2_def
    by (simp add: frame_stopHeartbeat frame_wsClose frame_fields frame_refl split: option.splits)
  then have 1: "timers_keep s s2" by (rule keep_frame)
  have 2: "timers_keep s2 s3"
    by (simp add: timers_keep_def s3_def rejectPending_length rejectPending_timers)
  have 3: "timers_keep s3 (setConnectionState Disconnected (s3\<lparr>pendingRequests := []\<rparr>))"
    by (simp add: setConnectionState_def emit_def keep_timers_eq)
  show ?thesis
    using keep_trans [OF keep_trans [OF 1 2] 3]
    by (simp add: disconnect_def Let_def s3_def s2_def)
qed

lemma keep_handleIncomingMessage: "timers_keep s (handleIncomingMessage m s)"
proof -
  have "timers_keep s (handleNotification m s)"
    by (simp add: handleNotification_def keep_disconnect emit_def keep_timers_eq)
  then show ?thesis
    unfolding handleIncomingMessage_def Let_def
    by (simp add: keep_refl keep_complete split: option.splits)
qed

lemma keep_fireTimer: "timers_keep s (fireTimer t h s)"
proof (cases "activeTimer s t")
  case None
  then show ?thesis by (simp add: fireTimer_def keep_refl)
next
  case (Some a)
  obtain task d where a: "a = (task, d)" by (cases a)
  show ?thesis
  proof (cases task)
    case (RequestTimeout i meth p)
    with Some a show ?thesis
      by (simp add: fireTimer_def requestTimeout_def keep_complete)
  next
    case (ConnectionTimeout p)
    have "frame s (connectTimeout p (clearTimeout t s))"
      by (intro frame_connectTimeout frame_clearTimeout frame_refl)
    with Some a ConnectionTimeout show ?thesis by (simp add: fireTimer_def keep_frame)
  next
    case ReconnectTimer
    have "frame s (connect x y True (clearTimeout t s))" for x y
      by (intro frame_connect frame_clearTimeout frame_refl)
    with Some a ReconnectTimer show ?thesis by (simp add: fireTimer_def keep_frame)
  next
    case HeartbeatInterval
    with Some a show ?thesis
      by (simp add: fireTimer_def heartbeat_def ping_def keep_request keep_refl)
  qed
qed

lemma keep_step: "timers_keep s (step e s)"
proof (cases e)
  case (CallConnect x y)
  then show ?thesis by (simp add: keep_frame [OF frame_connect [OF frame_refl]])
next
  case CallDisconnect
  then show ?thesis by (simp add: keep_disconnect)
next
  case (CallSendChatMessage params clock thr)
  then show ?thesis by (simp add: sendChatMessage_def keep_request emit_def keep_timers_eq)
next
  case (CallGetSystemHealth clock thr)
  then show ?thesis by (simp add: getSystemHealth_def keep_request emit_def keep_timers_eq)
next
  case (SocketOpen w)
  then show ?thesis
    by (simp add: keep_refl keep_frame [OF frame_onopen [OF frame_setReadyState [OF frame_refl]]])
next
  case (SocketMessage w parsed)
  then show ?thesis
    by (simp add: onmessage_def keep_refl keep_handleIncomingMessage split: option.splits)
next
  case (SocketClose w code)
  then show ?thesis
    by (simp add: keep_refl keep_frame [OF frame_onclose [OF frame_setReadyState [OF frame_refl]]])
next
  case (SocketError w)
  then show ?thesis by (simp add: keep_refl keep_frame [OF frame_onerror [OF frame_refl]])
next
  case (TimerFires t h)
  then show ?thesis by (simp add: keep_fireTimer)
qed

lemma keep_run: "timers_keep s (run es s)"
proof (induction es arbitrary: s)
  case Nil
  show ?case by (simp add: run_def keep_refl)
next
  case (Cons e es)
  have "timers_keep s (run es (step e s))"
    using keep_trans [OF keep_step Cons.IH] .
  then show ?case by (simp add: run_def)
qed

lemma late_response_ignored:
  assumes "map_of (pendingRequests s) (msg_id r) = None" and "msg_type r = Response"
  shows "handleIncomingMessage r s = s"
  using assms by (simp add: handleIncomingMessage_def)

subsection \<open>What \<open>disconnect\<close> leaves\<close>

lemma fold_rejectPending:
  "fold rejectPending ps s =
     s\<lparr>timers := fold (\<lambda>e ts. ts[timer (snd e) := None]) ps (timers s),
       sendSettled := sendSettled s @ map (\<lambda>e. (promise (snd e), Rejected ''Connection closed'')) ps\<rparr>"
  by (induction ps arbitrary: s) (simp_all add: rejectPending_def settleSend_def clearTimeout_def)

lemma disconnect_fields:
  "connectionState (disconnect s) = Disconnected"
  "heartbeatInterval (disconnect s) = None"
  "websocket (disconnect s) = None"
  "pendingRequests (disconnect s) = []"
  by (simp_all add: disconnect_def fold_rejectPending prim_defs Let_def split: option.splits)

subsection \<open>Pending requests keep their timer\<close>

text \<open>
  \<open>handles_ok s\<close>: the timers that the sockets and the heartbeat hold a handle of are not
  request timers. \<open>quiet s s'\<close>: a frame step that clears no request timer. \<open>armed s\<close>:
  the timer of every pending entry is active and is the request timer of that entry.
\<close>

lemma quiet_refl: "handles_ok s \<Longrightarrow> quiet s s"
  by (simp add: quiet_def frame_refl)

lemma quietI:
  assumes "quiet s s'" and "frame s' s''" and "handles_ok s''"
    and "\<And>t. requestAt s' t \<Longrightarrow> activeTimer s'' t = activeTimer s' t"
  shows "quiet s s''"
proof -
  have "activeTimer s'' t = activeTimer s t" if r: "requestAt s t" for t
  proof -
    from assms(1) r have e: "activeTimer s' t = activeTimer s t" by (simp add: quiet_def)
    with r have "requestAt s' t" by (simp add: requestAt_def)
    with assms(4) e show ?thesis by simp
  qed
  with assms show ?thesis
    by (auto simp add: quiet_def intro: frame_trans)
qed

lemma handles_ok_same:
  assumes "handles_ok s'" and "timers s'' = timers s'"
    and "connectionTimeout ` set (sockets s'') \<subseteq> connectionTimeout ` set (sockets s')"
    and "heartbeatInterval s'' = heartbeatInterval s' \<or> heartbeatInterval s'' = None"
  shows "handles_ok s''"
proof -
  have a: "activeTimer s'' = activeTimer s'"
    using assms(2) by (simp add: activeTimer_def fun_eq_iff)
  have "connectionTimeout k < length (timers s') \<and> \<not> requestAt s' (connectionTimeout k)"
    if "k \<in> set (sockets s'')" for k
  proof -
    from that assms(3) obtain k' where "k' \<in> set (sockets s')"
      "connectionTimeout k' = connectionTimeout k" by (metis imageE imageI subsetD)
    with assms(1) show ?thesis by (metis handles_ok_def)
  qed
  then show ?thesis
    using assms(1,2,4) by (auto simp add: handles_ok_def requestAt_def a)
qed

lemma readyState_handles:
  "connectionTimeout ` set (xs[w := (xs ! w)\<lparr>readyState := r\<rparr>]) \<subseteq> connectionTimeout ` set xs"
proof (cases "w < length xs")
  case True
  have "set (xs[w := (xs ! w)\<lparr>readyState := r\<rparr>]) \<subseteq> insert ((xs ! w)\<lparr>readyState := r\<rparr>) (set xs)"
    by (rule set_update_subset_insert)
  moreover have "connectionTimeout ((xs ! w)\<lparr>readyState := r\<rparr>) \<in> connectionTimeout ` set xs"
    using True by (simp add: image_iff) (metis nth_mem)
  ultimately show ?thesis by auto
next
  case False
  then show ?thesis by (simp add: list_update_beyond)
qed

text \<open>A step that changes no timer.\<close>

lemma quiet_same:
  assumes q: "quiet s s'" and f: "frame s' s''" and t: "timers s'' = timers s'"
    and k: "connectionTimeout ` set (sockets s'') \<subseteq> connectionTimeout ` set (sockets s')"
    and h: "heartbeatInterval s'' = heartbeatInterval s' \<or> heartbeatInterval s'' = None"
  shows "quiet s s''"
proof (rule quietI [OF q f])
  show "handles_ok s''"
    using q t k h by (auto simp add: quiet_def intro: handles_ok_same)
  show "activeTimer s'' x = activeTimer s' x" for x
    using t by (simp add: activeTimer_def)
qed

lemma quiet_fields:
  "quiet s s' \<Longrightarrow> quiet s (s'\<lparr>reconnectAttempts := n\<rparr>)"
  "quiet s s' \<Longrightarrow> quiet s (s'\<lparr>connectSettled := cs\<rparr>)"
  "quiet s s' \<Longrightarrow> quiet s (s'\<lparr>connectCalls := cc\<rparr>)"
  "quiet s s' \<Longrightarrow> quiet s (s'\<lparr>connectionState := st\<rparr>)"
  "quiet s s' \<Longrightarrow> quiet s (s'\<lparr>websocket := w\<rparr>)"
  "quiet s s' \<Longrightarrow> quiet s (s'\<lparr>trace := tr\<rparr>)"
  "quiet s s' \<Longrightarrow> quiet s (s'\<lparr>heartbeatInterval := None\<rparr>)"
  by (erule quiet_same; simp add: frame_fields frame_refl)+

lemma quiet_emit: "quiet s s' \<Longrightarrow> quiet s (emit e s')"
  unfolding emit_def by (rule quiet_fields)

lemma quiet_setConnectionState: "quiet s s' \<Longrightarrow> quiet s (setConnectionState st s')"
  unfolding setConnectionState_def by (simp add: quiet_emit quiet_fields)

lemma quiet_resolveConnect: "quiet s s' \<Longrightarrow> quiet s (resolveConnect p v s')"
  unfolding resolveConnect_def by (rule quiet_fields)

lemma quiet_setReadyState: "quiet s s' \<Longrightarrow> quiet s (setReadyState w r s')"
  by (erule quiet_same)
    (simp_all add: frame_setReadyState frame_refl, simp_all add: setReadyState_def readyState_handles)

lemma quiet_wsClose: "quiet s s' \<Longrightarrow> quiet s (wsClose w c s')"
  by (erule quiet_same)
    (simp_all add: frame_wsClose frame_refl, simp_all add: wsClose_def emit_def Let_def readyState_handles)

lemma quiet_clearTimeout:
  assumes q: "quiet s s'" and t: "\<not> requestAt s' t"
  shows "quiet s (clearTimeout t s')"
proof (rule quietI [OF q])
  show "frame s' (clearTimeout t s')"
    by (rule frame_clearTimeout [OF frame_refl])
  have a: "activeTimer (clearTimeout t s') x = (if x = t then None else activeTimer s' x)" for x
    by (rule activeTimer_clearTimeout)
  have "handles_ok s'" using q by (simp add: quiet_def)
  then show "handles_ok (clearTimeout t s')"
    by (auto simp add: handles_ok_def requestAt_def a) (simp_all add: clearTimeout_def)
  show "activeTimer (clearTimeout t s') x = activeTimer s' x" if "requestAt s' x" for x
    using that t by (auto simp add: a)
qed

lemma quiet_stopHeartbeat: "quiet s s' \<Longrightarrow> quiet s (stopHeartbeat s')"
proof -
  assume q: "quiet s s'"
  show ?thesis
  proof (cases "heartbeatInterval s'")
    case None
    with q show ?thesis by (simp add: stopHeartbeat_def)
  next
    case (Some t)
    with q have "\<not> requestAt s' t" by (simp add: quiet_def handles_ok_def)
    with q Some show ?thesis
      by (simp add: stopHeartbeat_def quiet_clearTimeout quiet_fields)
  qed
qed

text \<open>A step that adds a timer that is not a request timer, maybe with a handle to it.\<close>

lemma quiet_new_timer:
  assumes q: "quiet s s'" and task: "\<not> isRequestTimeout task"
    and s'': "timers s'' = timers s' @ [Some (task, d)]"
      "pendingRequests s'' = pendingRequests s'" "sendCalls s'' = sendCalls s'"
      "sendSettled s'' = sendSettled s'" "messageId s'' = messageId s'"
    and k: "sockets s'' = sockets s' \<or>
        (\<exists>r p. sockets s'' = sockets s' @
           [\<lparr>readyState = r, connectionTimeout = length (timers s'), connectPromise = p\<rparr>])"
    and h: "heartbeatInterval s'' = heartbeatInterval s' \<or>
        heartbeatInterval s'' = Some (length (timers s'))"
  shows "quiet s s''"
proof (rule quietI [OF q])
  have a: "activeTimer s'' x = (if x = length (timers s') then Some (task, d) else activeTimer s' x)" for x
    by (auto simp add: activeTimer_def s'' nth_append)
  have out: "activeTimer s' (length (timers s')) = None"
    by (simp add: activeTimer_def)
  show "frame s' s''"
    using task by (auto simp add: frame_def s'' a split: if_splits) (simp_all add: activeTimer_def)
  show "activeTimer s'' x = activeTimer s' x" if "requestAt s' x" for x
    using that out by (auto simp add: a requestAt_def)
  have r: "requestAt s'' x = (x \<noteq> length (timers s') \<and> requestAt s' x)" for x
    using task by (simp add: requestAt_def a)
  have ok: "handles_ok s'" using q by (simp add: quiet_def)
  show "handles_ok s''"
    unfolding handles_ok_def
  proof (intro conjI ballI allI impI)
    fix c assume "c \<in> set (sockets s'')"
    with k have "c \<in> set (sockets s') \<or> connectionTimeout c = length (timers s')" by auto
    then show "connectionTimeout c < length (timers s'')" "\<not> requestAt s'' (connectionTimeout c)"
      using ok by (auto simp add: handles_ok_def s'' r)
  next
    fix t assume "heartbeatInterval s'' = Some t"
    with h have "heartbeatInterval s' = Some t \<or> t = length (timers s')" by auto
    then show "t < length (timers s'')" "\<not> requestAt s'' t"
      using ok by (auto simp add: handles_ok_def s'' r)
  qed
qed

lemma quiet_startHeartbeat: "quiet s s' \<Longrightarrow> quiet s (startHeartbeat s')"
  by (erule quiet_new_timer [where task = HeartbeatInterval and d = 30000])
    (simp_all add: startHeartbeat_def setTimeout_def)

lemma quiet_handleReconnection: "quiet s s' \<Longrightarrow> quiet s (handleReconnection s')"
proof -
  assume q: "quiet s s'"
  let ?s1 = "setConnectionState Reconnecting s'"
  have q1: "quiet s (?s1\<lparr>reconnectAttempts := reconnectAttempts ?s1 + 1\<rparr>)"
    using q by (intro quiet_fields quiet_setConnectionState)
  have "quiet s (snd (setTimeout ReconnectTimer d (?s1\<lparr>reconnectAttempts := reconnectAttempts ?s1 + 1\<rparr>)))" for d
    by (rule quiet_new_timer [OF q1, where task = ReconnectTimer and d = d])
      (simp_all add: setTimeout_def)
  with q show ?thesis
    by (simp add: handleReconnection_def Let_def quiet_setConnectionState)
qed

lemma quiet_rejectConnect: "quiet s s' \<Longrightarrow> quiet s (rejectConnect p err s')"
  unfolding rejectConnect_def Let_def
  by (simp add: quiet_handleReconnection quiet_fields)

lemma quiet_connect: "quiet s s' \<Longrightarrow> quiet s (connect a b c s')"
proof -
  assume q: "quiet s s'"
  let ?s1 = "setConnectionState Connecting s'"
  let ?s2 = "?s1\<lparr>connectCalls := connectCalls ?s1 @ [c]\<rparr>"
  have q2: "quiet s ?s2"
    using q by (intro quiet_fields quiet_setConnectionState)
  have 1: "quiet s (resolveConnect p v (setConnectionState Error ?s2))" for p v
    using q2 by (intro quiet_resolveConnect quiet_setConnectionState)
  have 2: "quiet s (rejectConnect p e (setConnectionState Error ?s2))" for p e
    using q2 by (intro quiet_rejectConnect quiet_setConnectionState)
  have 3: "quiet s (?s2\<lparr>timers := timers ?s2 @ [Some (ConnectionTimeout p, d)],
      websocket := Some w,
      sockets := sockets ?s2 @
        [\<lparr>readyState = CONNECTING, connectionTimeout = length (timers ?s2), connectPromise = p\<rparr>]\<rparr>)"
    for p d w
    by (rule quiet_new_timer [OF q2, where task = "ConnectionTimeout p" and d = d]) simp_all
  show ?thesis
    unfolding connect_def Let_def setTimeout_def
    using 1 2 3 by simp
qed

lemma quiet_connectionTimeout:
  assumes q: "quiet s s'" and w: "w < length (sockets s')"
  shows "quiet s (clearTimeout (connectionTimeout (sockets s' ! w)) s')"
proof (rule quiet_clearTimeout [OF q])
  have "sockets s' ! w \<in> set (sockets s')" using w by simp
  moreover have "handles_ok s'" using q by (simp add: quiet_def)
  ultimately show "\<not> requestAt s' (connectionTimeout (sockets s' ! w))"
    by (simp add: handles_ok_def)
qed

lemma quiet_onopen:
  "quiet s s' \<Longrightarrow> w < length (sockets s') \<Longrightarrow> quiet s (onopen w s')"
  unfolding onopen_def Let_def
  by (intro quiet_resolveConnect quiet_startHeartbeat quiet_fields quiet_setConnectionState
      quiet_connectionTimeout)

lemma quiet_onclose:
  "quiet s s' \<Longrightarrow> w < length (sockets s') \<Longrightarrow> quiet s (onclose w code s')"
  unfolding onclose_def Let_def
  by (simp add: quiet_handleReconnection quiet_stopHeartbeat quiet_setConnectionState
      quiet_connectionTimeout)

lemma quiet_onerror:
  "quiet s s' \<Longrightarrow> w < length (sockets s') \<Longrightarrow> quiet s (onerror w s')"
  unfolding onerror_def Let_def
  by (intro quiet_rejectConnect quiet_emit quiet_setConnectionState quiet_connectionTimeout)

lemma quiet_connectTimeout: "quiet s s' \<Longrightarrow> quiet s (connectTimeout p s')"
  unfolding connectTimeout_def
  by (simp add: quiet_rejectConnect quiet_wsClose split: option.splits)

lemma armedD:
  "armed s \<Longrightarrow> (i, pe) \<in> set (pendingRequests s) \<Longrightarrow>
   \<exists>m d. activeTimer s (timer pe) = Some (RequestTimeout i m (promise pe), d)"
  by (simp add: armed_def)

lemma armed_quiet:
  assumes a: "armed s" and q: "quiet s s'"
  shows "armed s'"
  unfolding armed_def
proof (intro allI impI)
  fix i pe assume "(i, pe) \<in> set (pendingRequests s')"
  then have "(i, pe) \<in> set (pendingRequests s)"
    using q by (simp add: quiet_def frame_def)
  with a have "\<exists>m d. activeTimer s (timer pe) = Some (RequestTimeout i m (promise pe), d)"
    by (rule armedD)
  then obtain m d where t: "activeTimer s (timer pe) = Some (RequestTimeout i m (promise pe), d)"
    by blast
  then have "requestAt s (timer pe)" by (simp add: requestAt_def)
  with q t have "activeTimer s' (timer pe) = Some (RequestTimeout i m (promise pe), d)"
    by (simp add: quiet_def)
  then show "\<exists>m d. activeTimer s' (timer pe) = Some (RequestTimeout i m (promise pe), d)"
    by blast
qed

lemma handles_ok_keep:
  assumes ok: "handles_ok s" and keep: "timers_keep s s'"
    and k: "connectionTimeout ` set (sockets s') \<subseteq> connectionTimeout ` set (sockets s)"
    and h: "heartbeatInterval s' = heartbeatInterval s \<or> heartbeatInterval s' = None"
  shows "handles_ok s'"
proof -
  have old: "t < length (timers s') \<and> \<not> requestAt s' t"
    if t: "t < length (timers s)" "\<not> requestAt s t" for t
  proof -
    have "requestAt s t" if r: "requestAt s' t"
    proof -
      from r obtain task d where "activeTimer s' t = Some (task, d)" "isRequestTimeout task"
        by (auto simp add: requestAt_def split: option.splits)
      with keep t(1) show ?thesis by (auto simp add: timers_keep_def requestAt_def)
    qed
    with t keep show ?thesis by (auto simp add: timers_keep_def)
  qed
  show ?thesis
    unfolding handles_ok_def
  proof (intro conjI ballI allI impI)
    fix c assume "c \<in> set (sockets s')"
    with k obtain c' where c': "c' \<in> set (sockets s)" "connectionTimeout c' = connectionTimeout c"
      by (metis imageE imageI subsetD)
    with ok have "connectionTimeout c < length (timers s)" "\<not> requestAt s (connectionTimeout c)"
      by (auto simp add: handles_ok_def)
    then show "connectionTimeout c < length (timers s')" "\<not> requestAt s' (connectionTimeout c)"
      using old by auto
  next
    fix t assume "heartbeatInterval s' = Some t"
    with h have "heartbeatInterval s = Some t" by auto
    with ok have "t < length (timers s)" "\<not> requestAt s t"
      by (auto simp add: handles_ok_def)
    then show "t < length (timers s')" "\<not> requestAt s' t"
      using old by auto
  qed
qed

lemma update_entries:
  "(j, q) \<in> set (AList.update i v ps) \<Longrightarrow> (j, q) = (i, v) \<or> (j, q) \<in> set ps"
  by (induction ps) (auto split: if_splits)

lemma delete_entries:
  "(j, q) \<in> set (AList.delete i ps) \<Longrightarrow> (j, q) \<in> set ps \<and> j \<noteq> i"
  by (auto simp add: AList.delete_eq)

lemma armed_sendMessage:
  assumes a: "armed s"
  shows "armed (sendMessage m thrown s)"
proof (cases "isConnected s")
  case False
  have "activeTimer (sendMessage m thrown s) = activeTimer s"
    by (simp add: sendMessage_not_connected [OF False] activeTimer_def fun_eq_iff)
  with a show ?thesis
    by (simp add: armed_def sendMessage_not_connected [OF False])
next
  case True
  have old: "activeTimer (s\<lparr>timers := timers s @ [e]\<rparr>) (timer pe) =
      Some (RequestTimeout i mm (promise pe), d)"
    if "activeTimer s (timer pe) = Some (RequestTimeout i mm (promise pe), d)"
    for e and pe :: PendingRequest and i mm d
    using that by (auto simp add: activeTimer_def nth_append split: if_splits)
  show ?thesis
  proof (cases thrown)
    case None
    let ?s' = "sendMessage m None s"
    have act: "activeTimer ?s' x =
        (if x = length (timers s)
         then Some (RequestTimeout (msg_id m) (msg_method m) (length (sendCalls s)), timeout (config s))
         else activeTimer s x)" for x
      by (auto simp add: sendMessage_sent [OF True] activeTimer_def nth_append)
    have "\<exists>mm d. activeTimer ?s' (timer pe) = Some (RequestTimeout i mm (promise pe), d)"
      if "(i, pe) \<in> set (pendingRequests ?s')" for i pe
    proof -
      from that consider "i = msg_id m" "pe = \<lparr>promise = length (sendCalls s), timer = length (timers s)\<rparr>"
        | "(i, pe) \<in> set (pendingRequests s)"
        by (auto simp add: sendMessage_sent [OF True] dest: update_entries)
      then show ?thesis
      proof cases
        case 1
        then show ?thesis by (simp add: act)
      next
        case 2
        with a have "\<exists>mm d. activeTimer s (timer pe) = Some (RequestTimeout i mm (promise pe), d)"
          by (rule armedD)
        then obtain mm d where t: "activeTimer s (timer pe) = Some (RequestTimeout i mm (promise pe), d)"
          by blast
        then have "timer pe \<noteq> length (timers s)"
          by (auto simp add: activeTimer_def split: if_splits)
        with t show ?thesis by (simp add: act)
      qed
    qed
    then show ?thesis unfolding None armed_def by blast
  next
    case (Some err)
    let ?s' = "sendMessage m (Some err) s"
    have "\<exists>mm d. activeTimer ?s' (timer pe) = Some (RequestTimeout i mm (promise pe), d)"
      if "(i, pe) \<in> set (pendingRequests ?s')" for i pe
    proof -
      from that have "(i, pe) \<in> set (pendingRequests s)"
        by (auto simp add: sendMessage_thrown [OF True] dest: delete_entries)
      with a have "\<exists>mm d. activeTimer s (timer pe) = Some (RequestTimeout i mm (promise pe), d)"
        by (rule armedD)
      then obtain mm d where t: "activeTimer s (timer pe) = Some (RequestTimeout i mm (promise pe), d)"
        by blast
      have "activeTimer ?s' (timer pe) = activeTimer (s\<lparr>timers := timers s @ [None]\<rparr>) (timer pe)"
        by (simp add: sendMessage_thrown [OF True] activeTimer_def)
      with old [OF t] show ?thesis by simp
    qed
    then show ?thesis unfolding Some armed_def by blast
  qed
qed

lemma handles_ok_sendMessage:
  assumes "handles_ok s"
  shows "handles_ok (sendMessage m thrown s)"
proof (rule handles_ok_keep [OF assms keep_sendMessage])
  show "connectionTimeout ` set (sockets (sendMessage m thrown s)) \<subseteq> connectionTimeout ` set (sockets s)"
    by (cases "isConnected s"; cases thrown)
      (simp_all add: sendMessage_not_connected sendMessage_sent sendMessage_thrown)
  show "heartbeatInterval (sendMessage m thrown s) = heartbeatInterval s \<or>
      heartbeatInterval (sendMessage m thrown s) = None"
    by (cases "isConnected s"; cases thrown)
      (simp_all add: sendMessage_not_connected sendMessage_sent sendMessage_thrown)
qed

lemma armed_request: "armed s \<Longrightarrow> armed (request meth params clock thrown s)"
proof -
  assume a: "armed s"
  have "activeTimer (s\<lparr>messageId := n\<rparr>) = activeTimer s" for n
    by (simp add: activeTimer_def fun_eq_iff)
  with a have "armed (s\<lparr>messageId := n\<rparr>)" for n
    by (simp add: armed_def)
  then show ?thesis
    by (simp add: request_def generateMessageId_def Let_def armed_sendMessage)
qed

lemma handles_ok_request: "handles_ok s \<Longrightarrow> handles_ok (request meth params clock thrown s)"
proof -
  assume ok: "handles_ok s"
  have "handles_ok (s\<lparr>messageId := n\<rparr>)" for n
    by (rule handles_ok_same [OF ok]) simp_all
  then show ?thesis
    by (simp add: request_def generateMessageId_def Let_def handles_ok_sendMessage)
qed

text \<open>The entry of \<open>i\<close> leaves the map and its timer \<open>t\<close> is cleared or has fired.\<close>

lemma armed_complete:
  assumes a: "armed s" and t: "activeTimer s t = Some (RequestTimeout i m p, d)"
  shows "armed (settleSend p' out
      ((clearTimeout t s)\<lparr>pendingRequests := AList.delete i (pendingRequests s)\<rparr>))"
    (is "armed ?s'")
  unfolding armed_def
proof (intro allI impI)
  fix j q assume "(j, q) \<in> set (pendingRequests ?s')"
  then have jq: "(j, q) \<in> set (pendingRequests s)" "j \<noteq> i"
    by (auto simp add: settleSend_def dest: delete_entries)
  with a have "\<exists>mm dd. activeTimer s (timer q) = Some (RequestTimeout j mm (promise q), dd)"
    by (intro armedD)
  then obtain mm dd where q: "activeTimer s (timer q) = Some (RequestTimeout j mm (promise q), dd)"
    by blast
  with t jq(2) have ne: "timer q \<noteq> t" by auto
  have "activeTimer ?s' (timer q) = activeTimer (clearTimeout t s) (timer q)"
    by (simp add: settleSend_def activeTimer_def)
  with q ne have "activeTimer ?s' (timer q) = Some (RequestTimeout j mm (promise q), dd)"
    by (simp add: activeTimer_clearTimeout)
  then show "\<exists>mm dd. activeTimer ?s' (timer q) = Some (RequestTimeout j mm (promise q), dd)"
    by blast
qed

lemma handles_ok_complete:
  assumes "handles_ok s"
  shows "handles_ok (settleSend p out ((clearTimeout t s)\<lparr>pendingRequests := ps\<rparr>))"
  by (rule handles_ok_keep [OF assms keep_complete])
    (simp_all add: settleSend_def clearTimeout_def)

lemma handles_ok_disconnect: "handles_ok s \<Longrightarrow> handles_ok (disconnect s)"
proof (erule handles_ok_keep [OF _ keep_disconnect])
  have "sockets (fold rejectPending ps k) = sockets k" for ps k
    by (induction ps arbitrary: k) (simp_all add: rejectPending_def settleSend_def clearTimeout_def)
  then show "connectionTimeout ` set (sockets (disconnect s)) \<subseteq> connectionTimeout ` set (sockets s)"
    using readyState_handles [of "sockets s" _ CLOSING]
    by (auto simp add: disconnect_def prim_defs Let_def split: option.splits)
  show "heartbeatInterval (disconnect s) = heartbeatInterval s \<or> heartbeatInterval (disconnect s) = None"
    by (simp add: disconnect_fields)
qed

lemma armed_disconnect: "armed (disconnect s)"
  by (simp add: armed_def disconnect_fields)

lemma quiet_step:
  assumes "quiet s s'" and "armed s"
  shows "handles_ok s' \<and> armed s'"
  using assms armed_quiet by (auto simp add: quiet_def)

lemma armed_handleIncomingMessage:
  assumes ok: "handles_ok s" and a: "armed s"
  shows "handles_ok (handleIncomingMessage m s) \<and> armed (handleIncomingMessage m s)"
proof -
  have notif: "handles_ok (handleNotification m s) \<and> armed (handleNotification m s)"
    unfolding handleNotification_def
    using quiet_step [OF quiet_emit [OF quiet_refl [OF ok]] a]
    by (simp add: handles_ok_disconnect [OF ok] armed_disconnect)
  have resp: "handles_ok (settleSend (promise pe) out
        ((clearTimeout (timer pe) s)\<lparr>pendingRequests := AList.delete (msg_id m) (pendingRequests s)\<rparr>)) \<and>
      armed (settleSend (promise pe) out
        ((clearTimeout (timer pe) s)\<lparr>pendingRequests := AList.delete (msg_id m) (pendingRequests s)\<rparr>))"
    if pe: "map_of (pendingRequests s) (msg_id m) = Some pe" for pe out
  proof -
    have "(msg_id m, pe) \<in> set (pendingRequests s)" using pe by (rule map_of_SomeD)
    with a have "\<exists>mm d. activeTimer s (timer pe) = Some (RequestTimeout (msg_id m) mm (promise pe), d)"
      by (rule armedD)
    then obtain mm d where "activeTimer s (timer pe) = Some (RequestTimeout (msg_id m) mm (promise pe), d)"
      by blast
    then show ?thesis
      using armed_complete [OF a] handles_ok_complete [OF ok] by blast
  qed
  have same: "pendingRequests (clearTimeout t s) = pendingRequests s" for t
    by (simp add: clearTimeout_def)
  show ?thesis
    unfolding handleIncomingMessage_def Let_def same
    using ok a notif resp by (simp split: option.splits)
qed

lemma armed_fireTimer:
  assumes ok: "handles_ok s" and a: "armed s"
  shows "handles_ok (fireTimer t h s) \<and> armed (fireTimer t h s)"
proof (cases "activeTimer s t")
  case None
  with ok a show ?thesis by (simp add: fireTimer_def)
next
  case (Some x)
  obtain task d where x: "x = (task, d)" by (cases x)
  have cleared: "quiet s (clearTimeout t s)" if "\<not> isRequestTimeout task"
    using that Some x by (intro quiet_clearTimeout quiet_refl ok) (simp add: requestAt_def)
  show ?thesis
  proof (cases task)
    case (RequestTimeout i meth p)
    have "requestTimeout i meth p (clearTimeout t s) =
        settleSend p (Rejected (''MCP request timeout: '' @ method_text meth))
          ((clearTimeout t s)\<lparr>pendingRequests := AList.delete i (pendingRequests s)\<rparr>)"
      by (simp add: requestTimeout_def clearTimeout_def)
    then show ?thesis
      using Some x RequestTimeout armed_complete [OF a, of t i meth p d] handles_ok_complete [OF ok]
      by (simp add: fireTimer_def)
  next
    case (ConnectionTimeout p)
    then have "quiet s (connectTimeout p (clearTimeout t s))"
      using cleared by (intro quiet_connectTimeout) simp
    with Some x ConnectionTimeout show ?thesis
      using quiet_step [OF _ a] by (simp add: fireTimer_def)
  next
    case ReconnectTimer
    then have "quiet s (connect b c True (clearTimeout t s))" for b c
      using cleared by (intro quiet_connect) simp
    with Some x ReconnectTimer show ?thesis
      using quiet_step [OF _ a] by (simp add: fireTimer_def)
  next
    case HeartbeatInterval
    with Some x show ?thesis
      using ok a by (simp add: fireTimer_def heartbeat_def ping_def armed_request handles_ok_request)
  qed
qed

lemma armed_step:
  assumes ok: "handles_ok s" and a: "armed s"
  shows "handles_ok (step e s) \<and> armed (step e s)"
proof (cases e)
  case (CallConnect b c)
  then show ?thesis
    using quiet_step [OF quiet_connect [OF quiet_refl [OF ok]] a] by simp
next
  case CallDisconnect
  then show ?thesis by (simp add: handles_ok_disconnect [OF ok] armed_disconnect)
next
  case (CallSendChatMessage params clock thr)
  then show ?thesis
    using quiet_step [OF quiet_emit [OF quiet_refl [OF ok]] a] ok a
    by (simp add: sendChatMessage_def armed_request handles_ok_request)
next
  case (CallGetSystemHealth clock thr)
  then show ?thesis
    using quiet_step [OF quiet_emit [OF quiet_refl [OF ok]] a] ok a
    by (simp add: getSystemHealth_def armed_request handles_ok_request)
next
  case (SocketOpen w)
  have "quiet s (onopen w (setReadyState w OPEN s))" if "w < length (sockets s)"
    by (rule quiet_onopen [OF quiet_setReadyState [OF quiet_refl [OF ok]]])
      (use that in \<open>simp add: setReadyState_def\<close>)
  with SocketOpen show ?thesis
    using quiet_step [OF _ a] ok a by simp
next
  case (SocketMessage w parsed)
  then show ?thesis
    using ok a armed_handleIncomingMessage [OF ok a]
    by (simp add: onmessage_def split: option.splits)
next
  case (SocketClose w code)
  have "quiet s (onclose w code (setReadyState w CLOSED s))" if "w < length (sockets s)"
    by (rule quiet_onclose [OF quiet_setReadyState [OF quiet_refl [OF ok]]])
      (use that in \<open>simp add: setReadyState_def\<close>)
  with SocketClose show ?thesis
    using quiet_step [OF _ a] ok a by simp
next
  case (SocketError w)
  have "quiet s (onerror w s)" if "w < length (sockets s)"
    by (rule quiet_onerror [OF quiet_refl [OF ok] that])
  with SocketError show ?thesis
    using quiet_step [OF _ a] ok a by simp
next
  case (TimerFires t h)
  then show ?thesis using armed_fireTimer [OF ok a] by simp
qed

lemma armed_run:
  "handles_ok s \<Longrightarrow> armed s \<Longrightarrow> handles_ok (run es s) \<and> armed (run es s)"
proof (induction es arbitrary: s)
  case Nil
  then show ?case by (simp add: run_def)
next
  case (Cons e es)
  have "handles_ok (step e s) \<and> armed (step e s)"
    using Cons.prems by (rule armed_step)
  then have "handles_ok (run es (step e s)) \<and> armed (run es (step e s))"
    using Cons.IH by blast
  then show ?case by (simp add: run_def)
qed

lemma armed_reachable: "armed (run es (constructor a b c))"
proof -
  have "handles_ok (constructor a b c)" "armed (constructor a b c)"
    by (simp_all add: handles_ok_def armed_def constructor_def)
  then show ?thesis using armed_run by blast
qed

section \<open>The example states, evaluated\<close>

lemma connected_example_eq:
  "connected_example =
    \<lparr>config = \<lparr>endpoint = ''ws://localhost:8080/mcp'', apiKey = None, timeout = 2000,
       retryAttempts = 3, retryDelay = 1000, enableFallback = True\<rparr>,
     connectionState = Connected, messageId = 0, pendingRequests = [],
     reconnectAttempts = 0, maxReconnectAttempts = 5,
     heartbeatInterval = Some 1, websocket = Some 0,
     timers = [None, Some (HeartbeatInterval, 30000)],
     sockets = [\<lparr>readyState = OPEN, connectionTimeout = 0, connectPromise = 0\<rparr>],
     sendCalls = [], sendSettled = [], connectCalls = [False],
     connectSettled = [(0, Resolved (Some ''true''))],
     trace = [Emit_connectionStateChange Connecting, Emit_connectionStateChange Connected]\<rparr>"
  by (simp add: connected_example_def eval_defs)

lemma backoff_example_eq:
  "backoff_example =
    \<lparr>config = \<lparr>endpoint = ''ws://localhost:8080/mcp'', apiKey = None, timeout = 30000,
       retryAttempts = 3, retryDelay = 1000, enableFallback = True\<rparr>,
     connectionState = Reconnecting, messageId = 0, pendingRequests = [],
     reconnectAttempts = 2, maxReconnectAttempts = 5,
     heartbeatInterval = None, websocket = Some 1,
     timers = [None, None, None, None, Some (ReconnectTimer, 2000)],
     sockets = [\<lparr>readyState = CLOSED, connectionTimeout = 0, connectPromise = 0\<rparr>,
                \<lparr>readyState = CONNECTING, connectionTimeout = 3, connectPromise = 1\<rparr>],
     sendCalls = [], sendSettled = [], connectCalls = [False, True],
     connectSettled = [(0, Resolved (Some ''true'')), (1, Rejected ''WebSocket error event'')],
     trace = [Emit_connectionStateChange Connecting, Emit_connectionStateChange Connected,
              Emit_connectionStateChange Disconnected, Emit_connectionStateChange Reconnecting,
              Emit_connectionStateChange Connecting, Emit_connectionStateChange Error, Emit_error,
              Emit_connectionStateChange Reconnecting]\<rparr>"
  by (simp add: backoff_example_def example_host_def eval_defs)

lemma pending_example_eq:
  "pending_example =
     run [CallConnect True True, SocketOpen 0, CallSendChatMessage ''hi'' 100 None,
          CallGetSystemHealth 101 None]
       (constructor None None (no_overrides\<lparr>p_timeout := Some 2000\<rparr>))"
  by (simp add: pending_example_def connected_example_def run_def)

lemma pending_example_fields:
  "map fst (pendingRequests pending_example) = [''mcp_100_1'', ''mcp_101_2''] \<and>
   map snd (pendingRequests pending_example) =
     [\<lparr>promise = 0, timer = 2\<rparr>, \<lparr>promise = 1, timer = 3\<rparr>] \<and>
   websocket pending_example = Some 0 \<and> heartbeatInterval pending_example = Some 1 \<and>
   connectionState pending_example = Connected \<and>
   sendSettled pending_example = [] \<and> length (sendCalls pending_example) = 2"
  by (simp add: pending_example_def connected_example_eq eval_defs)

lemma settled_events_run:
  "sendSettled (run settled_events (constructor None None no_overrides)) =
     [(1, Resolved (Some ''{}'')), (0, Rejected ''MCP request timeout: chat.completion''),
      (2, Rejected ''Connection closed''), (3, Rejected ''Connection closed'')] \<and>
   map msg_id (sendCalls (run settled_events (constructor None None no_overrides))) =
     [''mcp_100_1'', ''mcp_101_2'', ''mcp_102_3'', ''mcp_103_4''] \<and>
   pendingRequests (run settled_events (constructor None None no_overrides)) = [] \<and>
   messageId (run settled_events (constructor None None no_overrides)) = 4"
  by (simp add: settled_events_def response_example_def example_host_def eval_defs)

section \<open>Facts about single methods\<close>

lemma disconnect_trace:
  "trace (disconnect s) =
     trace s @ (case websocket s of None \<Rightarrow> [] | Some w \<Rightarrow> [WsClose w (Some 1000)]) @
     (if connectionState s = Disconnected then [] else [Emit_connectionStateChange Disconnected])"
  by (simp add: disconnect_def fold_rejectPending prim_defs Let_def split: option.splits)

lemma disconnect_settled:
  "sendSettled (disconnect s) =
     sendSettled s @ map (\<lambda>e. (promise (snd e), Rejected ''Connection closed'')) (pendingRequests s)"
  by (simp add: disconnect_def fold_rejectPending prim_defs Let_def split: option.splits)

lemma disconnect_timers:
  "activeTimer (disconnect s) x =
     (if x \<in> (\<lambda>e. timer (snd e)) ` set (pendingRequests s) \<or> heartbeatInterval s = Some x
      then None else activeTimer s x)"
proof -
  define s2 where "s2 = (case websocket (stopHeartbeat s) of None \<Rightarrow> stopHeartbeat s
      | Some w \<Rightarrow> (wsClose w (Some 1000) (stopHeartbeat s))\<lparr>websocket := None\<rparr>)"
  have t2: "timers s2 = timers (stopHeartbeat s)" and p2: "pendingRequests s2 = pendingRequests s"
    by (simp_all add: s2_def prim_defs Let_def split: option.splits)
  have "activeTimer s2 x = activeTimer (stopHeartbeat s) x"
    by (simp add: activeTimer_def t2)
  also have "\<dots> = (if heartbeatInterval s = Some x then None else activeTimer s x)"
  proof -
    have "activeTimer (k\<lparr>heartbeatInterval := None\<rparr>) x = activeTimer k x" for k
      by (simp add: activeTimer_def)
    then show ?thesis
      by (cases "heartbeatInterval s") (auto simp add: stopHeartbeat_def activeTimer_clearTimeout)
  qed
  finally have a2: "activeTimer s2 x =
      (if heartbeatInterval s = Some x then None else activeTimer s x)" .
  have "activeTimer (disconnect s) x = activeTimer (fold rejectPending (pendingRequests s2) s2) x"
    by (simp add: disconnect_def Let_def s2_def activeTimer_def setConnectionState_def emit_def)
  then show ?thesis
    by (simp add: rejectPending_timers a2 p2)
qed

lemma count_list_distinct:
  "distinct xs \<Longrightarrow> count_list xs x = (if x \<in> set xs then 1 else 0)"
  by (induction xs) auto

lemma correlated_reachable: "correlated (run es (constructor a b c))"
  by (rule correlated_run [OF correlated_constructor])

text \<open>
  The ceiling of \<open>handleReconnection\<close> is the field \<open>maxReconnectAttempts\<close>: once the
  counter has reached it, the state becomes \<open>Error\<close>, no timer is added and the counter
  stays. \<open>config.retryAttempts\<close> is not read.
\<close>

lemma handleReconnection_ceiling:
  assumes "maxReconnectAttempts s \<le> reconnectAttempts s"
  shows "connectionState (handleReconnection s) = Error \<and>
         timers (handleReconnection s) = timers s \<and>
         reconnectAttempts (handleReconnection s) = reconnectAttempts s"
  using assms by (simp add: handleReconnection_def prim_defs)

lemma handleReconnection_ignores_retryAttempts:
  "handleReconnection (s\<lparr>config := (config s)\<lparr>retryAttempts := k\<rparr>\<rparr>) =
     (handleReconnection s)\<lparr>config := (config s)\<lparr>retryAttempts := k\<rparr>\<rparr>"
  by (simp add: handleReconnection_def prim_defs Let_def)

text \<open>
  What \<open>connect\<close> leaves when the handshake succeeds: the \<open>open\<close> event of the socket
  that \<open>websocket\<close> holds resets the attempt counter, sets \<open>Connected\<close>, makes
  \<open>isConnected\<close> true and resolves the promise of the call with \<open>true\<close>.
\<close>

lemma open_success_postcondition:
  assumes "websocket s = Some w" and "w < length (sockets s)"
    and "readyState (sockets s ! w) = CONNECTING"
  shows "reconnectAttempts (step (SocketOpen w) s) = 0 \<and>
         connectionState (step (SocketOpen w) s) = Connected \<and>
         isConnected (step (SocketOpen w) s) \<and>
         connectSettled (step (SocketOpen w) s) =
           connectSettled s @ [(connectPromise (sockets s ! w), Resolved (Some ''true''))]"
  using assms
  by (simp add: onopen_def setReadyState_def isConnected_def prim_defs Let_def)

text \<open>
  What \<open>disconnect\<close> does with the handles the client holds, in any state the client
  reaches: the state becomes \<open>Disconnected\<close>; the socket in \<open>websocket\<close>, if there is one,
  is closed with code 1000 and dropped; the timer in \<open>heartbeatInterval\<close> is cleared; every
  pending entry has its timer cleared and its promise rejected with \<open>Connection closed\<close>,
  and the map is empty; after that every promise a \<open>sendMessage\<close> call has ever returned is
  settled.
\<close>

lemma disconnect_effects:
  assumes "s = run es (constructor env_endpoint env_apiKey cfg)"
  shows "connectionState (disconnect s) = Disconnected \<and>
         websocket (disconnect s) = None \<and>
         trace (disconnect s) =
           trace s @ (case websocket s of None \<Rightarrow> [] | Some w \<Rightarrow> [WsClose w (Some 1000)]) @
           (if connectionState s = Disconnected then []
            else [Emit_connectionStateChange Disconnected]) \<and>
         heartbeatInterval (disconnect s) = None \<and>
         (\<forall>t. heartbeatInterval s = Some t \<longrightarrow> activeTimer (disconnect s) t = None) \<and>
         pendingRequests (disconnect s) = [] \<and>
         sendSettled (disconnect s) =
           sendSettled s @
           map (\<lambda>e. (promise (snd e), Rejected ''Connection closed'')) (pendingRequests s) \<and>
         (\<forall>e \<in> set (pendingRequests s). activeTimer (disconnect s) (timer (snd e)) = None) \<and>
         (\<forall>p < length (sendCalls (disconnect s)). p \<in> fst ` set (sendSettled (disconnect s)))"
proof -
  have "correlated s" unfolding assms by (rule correlated_reachable)
  then have "settled_ok (disconnect s)"
    using correlated_disconnect by (simp add: correlated_def)
  then have all: "\<forall>p < length (sendCalls (disconnect s)). p \<in> fst ` set (sendSettled (disconnect s))"
    by (simp add: settled_ok_def disconnect_fields)
  have timers: "\<forall>e \<in> set (pendingRequests s). activeTimer (disconnect s) (timer (snd e)) = None"
    "\<forall>t. heartbeatInterval s = Some t \<longrightarrow> activeTimer (disconnect s) t = None"
    by (simp_all add: disconnect_timers)
  show ?thesis
    using all timers by (simp add: disconnect_fields disconnect_settled disconnect_trace)
qed

lemma disconnect_effects_example:
  "websocket pending_example = Some 0 \<and> heartbeatInterval pending_example = Some 1 \<and>
   length (pendingRequests pending_example) = 2 \<and>
   trace (disconnect pending_example) =
     trace pending_example @ [WsClose 0 (Some 1000), Emit_connectionStateChange Disconnected] \<and>
   activeTimer (disconnect pending_example) 1 = None \<and>
   sendSettled (disconnect pending_example) =
     [(0, Rejected ''Connection closed''), (1, Rejected ''Connection closed'')] \<and>
   pendingRequests (disconnect pending_example) = [] \<and>
   connectionState (disconnect pending_example) = Disconnected"
  using disconnect_effects [of pending_example
      "[CallConnect True True, SocketOpen 0, CallSendChatMessage ''hi'' 100 None,
        CallGetSystemHealth 101 None]" None None "no_overrides\<lparr>p_timeout := Some 2000\<rparr>"]
    pending_example_eq pending_example_fields
  by (auto simp add: map_eq_Cons_conv)

lemma outage_example_eq:
  "outage_example =
    \<lparr>config = \<lparr>endpoint = ''ws://localhost:8080/mcp'', apiKey = None, timeout = 30000,
       retryAttempts = 3, retryDelay = 1000, enableFallback = True\<rparr>,
     connectionState = Connected, messageId = 0, pendingRequests = [],
     reconnectAttempts = 0, maxReconnectAttempts = 5,
     heartbeatInterval = Some 9, websocket = Some 3,
     timers = [None, None, None, None, None, None, None,
               Some (HeartbeatInterval, 30000), None, Some (HeartbeatInterval, 30000)],
     sockets = [\<lparr>readyState = CLOSED, connectionTimeout = 0, connectPromise = 0\<rparr>,
                \<lparr>readyState = CLOSED, connectionTimeout = 3, connectPromise = 1\<rparr>,
                \<lparr>readyState = OPEN, connectionTimeout = 6, connectPromise = 2\<rparr>,
                \<lparr>readyState = OPEN, connectionTimeout = 8, connectPromise = 3\<rparr>],
     sendCalls = [], sendSettled = [], connectCalls = [False, True, True, True],
     connectSettled = [(0, Resolved (Some ''true'')), (1, Rejected ''WebSocket error event''),
                       (2, Resolved (Some ''true'')), (3, Resolved (Some ''true''))],
     trace = [Emit_connectionStateChange Connecting, Emit_connectionStateChange Connected,
              Emit_connectionStateChange Disconnected, Emit_connectionStateChange Reconnecting,
              Emit_connectionStateChange Connecting, Emit_connectionStateChange Error, Emit_error,
              Emit_connectionStateChange Reconnecting, Emit_connectionStateChange Disconnected,
              Emit_connectionStateChange Reconnecting, Emit_connectionStateChange Connecting,
              Emit_connectionStateChange Connected, Emit_connectionStateChange Connecting,
              Emit_connectionStateChange Connected]\<rparr>"
  by (simp add: outage_example_def example_host_def eval_defs)

section \<open>The claims\<close>

text \<open>
  C1. The attempt ceiling that \<open>handleReconnection\<close> compares with is the field
  \<open>maxReconnectAttempts\<close>, which is 5, not \<open>config.retryAttempts\<close>. The client is made
  with \<open>retryAttempts = 3\<close> and \<open>retryDelay = 1000\<close>; its connection opens and is
  closed by the server (code 1001), and every reconnection fails with an error event
  followed by a close event (code 1006). Attempts 1, 2 and 3 are scheduled with 1000, 2000
  and 4000 ms. When the next reconnection fails the attempt count has reached 3, and
  the client is not in \<open>Error\<close>: it is \<open>Reconnecting\<close>, the counter is 4 and a further
  \<open>connect\<close> is scheduled in 8000 ms.
\<close>

theorem reconnect_exceeds_retryAttempts:
  "retryAttempts (config exhausted_example) = 3 \<and>
   retryDelay (config exhausted_example) = 1000 \<and>
   activeTimer backoff_example 4 = Some (ReconnectTimer, 2000) \<and>
   activeTimer exhausted_example 5 = Some (ReconnectTimer, 4000) \<and>
   connectionState exhausted_example = Reconnecting \<and>
   reconnectAttempts exhausted_example = 4 \<and>
   activeTimer exhausted_example 7 = Some (ReconnectTimer, 8000)"
  by (simp add: exhausted_example_def backoff_example_eq example_host_def eval_defs)

text \<open>
  C2. When the connection timer of \<open>connect\<close> fires before the socket opens, the
  promise of the call is rejected with \<open>MCP connection timeout\<close> and \<open>isConnected\<close> is
  false, but the state is still \<open>Connecting\<close>: the timer callback closes the socket and
  rejects, and unlike \<open>onerror\<close> and the two \<open>catch\<close> branches it does not set
  \<open>Error\<close>. The error and close events that the closed socket then delivers leave the
  client \<open>Reconnecting\<close>.
\<close>

theorem open_timeout_keeps_connecting:
  "connectSettled open_timeout_example = [(0, Rejected ''MCP connection timeout'')] \<and>
   connectionState open_timeout_example = Connecting \<and>
   \<not> isConnected open_timeout_example \<and>
   connectionState open_timeout_closed_example = Reconnecting"
  by (simp add: open_timeout_closed_example_def open_timeout_example_def example_host_def eval_defs)

text \<open>
  C3, as stated, fails: with \<open>enableFallback = false\<close> a closure with code 1001
  starts a reconnection all the same.
\<close>

theorem reconnect_with_fallback_disabled_counterexample:
  "enableFallback (config fallback_off_example) = False \<and>
   connectionState fallback_off_example = Reconnecting \<and>
   reconnectAttempts fallback_off_example = 1 \<and>
   activeTimer fallback_off_example 2 = Some (ReconnectTimer, 1000)"
  by (simp add: fallback_off_example_def eval_defs)

text \<open>
  C3, amended. For a socket of the client, a closure with code 1000 never triggers a
  reconnection attempt: the state becomes \<open>Disconnected\<close>, the attempt counter is
  unchanged and no timer is added. A closure with any other code, while the attempt
  ceiling is not reached, sets \<open>Reconnecting\<close>, counts one attempt and schedules the
  reconnection timer, whatever the value \<open>b\<close> of \<open>enableFallback\<close> is: \<open>onclose\<close> does
  not read the flag.
\<close>

theorem onclose_reconnection:
  assumes "w < length (sockets s)"
  shows "(code = 1000 \<longrightarrow>
      connectionState (onclose w code (s\<lparr>config := (config s)\<lparr>enableFallback := b\<rparr>\<rparr>)) = Disconnected \<and>
      reconnectAttempts (onclose w code (s\<lparr>config := (config s)\<lparr>enableFallback := b\<rparr>\<rparr>)) = reconnectAttempts s \<and>
      length (timers (onclose w code (s\<lparr>config := (config s)\<lparr>enableFallback := b\<rparr>\<rparr>))) = length (timers s)) \<and>
   (code \<noteq> 1000 \<and> reconnectAttempts s < maxReconnectAttempts s \<longrightarrow>
      connectionState (onclose w code (s\<lparr>config := (config s)\<lparr>enableFallback := b\<rparr>\<rparr>)) = Reconnecting \<and>
      reconnectAttempts (onclose w code (s\<lparr>config := (config s)\<lparr>enableFallback := b\<rparr>\<rparr>)) = reconnectAttempts s + 1 \<and>
      activeTimer (onclose w code (s\<lparr>config := (config s)\<lparr>enableFallback := b\<rparr>\<rparr>)) (length (timers s)) =
        Some (ReconnectTimer, retryDelay (config s) * 2 ^ reconnectAttempts s))"
  by (auto simp add: onclose_def handleReconnection_def prim_defs Let_def nth_append
      split: option.splits)

theorem onclose_reconnection_witness:
  "0 < length (sockets connected_example) \<and>
   (1006::nat) \<noteq> 1000 \<and> reconnectAttempts connected_example < maxReconnectAttempts connected_example \<and>
   connectionState (onclose 0 1006 (connected_example\<lparr>config := (config connected_example)\<lparr>enableFallback := False\<rparr>\<rparr>)) = Reconnecting \<and>
   activeTimer (onclose 0 1006 (connected_example\<lparr>config := (config connected_example)\<lparr>enableFallback := False\<rparr>\<rparr>)) 2 =
     Some (ReconnectTimer, 1000) \<and>
   connectionState (onclose 0 1000 (connected_example\<lparr>config := (config connected_example)\<lparr>enableFallback := False\<rparr>\<rparr>)) = Disconnected \<and>
   length (timers (onclose 0 1000 (connected_example\<lparr>config := (config connected_example)\<lparr>enableFallback := False\<rparr>\<rparr>))) = 2"
  using onclose_reconnection [where code = 1006 and w = 0 and s = connected_example and b = False]
    onclose_reconnection [where code = 1000 and w = 0 and s = connected_example and b = False]
  by (simp add: connected_example_eq eval_defs)

text \<open>
  C4. Every reconnection attempt \<open>n\<close>, counted from 1, is scheduled with the delay
  \<open>retryDelay * 2 ^ (n - 1)\<close>: when \<open>handleReconnection\<close> runs with \<open>n - 1\<close> attempts made
  and the ceiling not reached, the attempt counter becomes \<open>n\<close> and one reconnection timer
  with that delay is added.
\<close>

theorem handleReconnection_delay:
  assumes "1 \<le> n" and "reconnectAttempts s = n - 1" and "n \<le> maxReconnectAttempts s"
  shows "reconnectAttempts (handleReconnection s) = n \<and>
         timers (handleReconnection s) =
           timers s @ [Some (ReconnectTimer, retryDelay (config s) * 2 ^ (n - 1))]"
  using assms by (auto simp add: handleReconnection_def prim_defs Let_def)

theorem handleReconnection_delay_witness:
  "(1::nat) \<le> 3 \<and> reconnectAttempts backoff_example = 3 - 1 \<and>
   3 \<le> maxReconnectAttempts backoff_example \<and>
   reconnectAttempts (handleReconnection backoff_example) = 3 \<and>
   timers (handleReconnection backoff_example) =
     timers backoff_example @ [Some (ReconnectTimer, 4000)]"
  using handleReconnection_delay [of 3 backoff_example]
  by (simp add: backoff_example_eq)

text \<open>
  C5. A request sent by \<open>sendMessage\<close> registers a timer with the configured timeout. If,
  after any events, that timer is still active (no matching response and no disconnect
  cleared it) and fires, the promise of the call is rejected with a message made of
  \<open>MCP request timeout: \<close> and the method name, the entry of the message identifier is
  no longer in \<open>pendingRequests\<close>, and a response with that identifier changes nothing.
\<close>

theorem request_timeout:
  assumes conn: "isConnected s"
    and meth: "msg_method m = Some meth"
    and later: "s' = run es (sendMessage m None s)"
    and active: "activeTimer s' (length (timers s)) \<noteq> None"
  shows "activeTimer (sendMessage m None s) (length (timers s)) =
           Some (RequestTimeout (msg_id m) (Some meth) (length (sendCalls s)), timeout (config s)) \<and>
         sendSettled (fireTimer (length (timers s)) h s') =
           sendSettled s' @ [(length (sendCalls s), Rejected (''MCP request timeout: '' @ meth))] \<and>
         map_of (pendingRequests (fireTimer (length (timers s)) h s')) (msg_id m) = None \<and>
         (\<forall>r. msg_type r = Response \<and> msg_id r = msg_id m \<longrightarrow>
            handleIncomingMessage r (fireTimer (length (timers s)) h s') =
            fireTimer (length (timers s)) h s')"
proof -
  let ?t = "length (timers s)"
  let ?s1 = "sendMessage m None s"
  let ?task = "RequestTimeout (msg_id m) (Some meth) (length (sendCalls s))"
  have reg: "activeTimer ?s1 ?t = Some (?task, timeout (config s))"
    by (simp add: sendMessage_sent [OF conn] activeTimer_def meth)
  have len: "?t < length (timers ?s1)"
    by (simp add: sendMessage_sent [OF conn])
  from active obtain task d where a: "activeTimer s' ?t = Some (task, d)" by auto
  have "timers_keep ?s1 s'" unfolding later by (rule keep_run)
  with len a have "activeTimer ?s1 ?t = Some (task, d)"
    by (simp add: timers_keep_def)
  with reg have td: "task = ?task" "d = timeout (config s)" by simp_all
  have fire: "fireTimer ?t h s' =
      requestTimeout (msg_id m) (Some meth) (length (sendCalls s)) (clearTimeout ?t s')"
    using a td by (simp add: fireTimer_def)
  have gone: "map_of (pendingRequests (fireTimer ?t h s')) (msg_id m) = None"
    by (simp add: fire requestTimeout_def settleSend_def clearTimeout_def delete_conv)
  have "sendSettled (fireTimer ?t h s') =
      sendSettled s' @ [(length (sendCalls s), Rejected (''MCP request timeout: '' @ meth))]"
    by (simp add: fire requestTimeout_def settleSend_def clearTimeout_def method_text_def)
  with reg gone show ?thesis
    by (auto intro: late_response_ignored)
qed

theorem request_timeout_witness:
  "isConnected connected_example \<and> msg_method ping_example = Some ''system.ping'' \<and>
   activeTimer (run [SocketMessage 0 None] (sendMessage ping_example None connected_example))
     (length (timers connected_example)) \<noteq> None \<and>
   sendSettled (fireTimer 2 example_host
       (run [SocketMessage 0 None] (sendMessage ping_example None connected_example))) =
     [(0, Rejected ''MCP request timeout: system.ping'')] \<and>
   pendingRequests (fireTimer 2 example_host
       (run [SocketMessage 0 None] (sendMessage ping_example None connected_example))) = []"
  using request_timeout [of connected_example ping_example "''system.ping''"
      "run [SocketMessage 0 None] (sendMessage ping_example None connected_example)"
      "[SocketMessage 0 None]" example_host]
  by (simp add: connected_example_eq ping_example_def eval_defs)

text \<open>
  C6. In every state the client reaches from its construction, by any sequence of
  events: the promise of each \<open>sendMessage\<close> call has been settled exactly once, unless
  its entry is still in \<open>pendingRequests\<close>, and then it has not been settled at all; every
  settlement belongs to a call; the identifiers of all calls are pairwise distinct, so a
  promise has one identifier and no other promise shares it; the keys of
  \<open>pendingRequests\<close> are distinct and each is the identifier of the call whose promise the
  entry holds; the timer of every pending entry is still active and will reject that
  promise; and the identifier \<open>generateMessageId\<close> returns next has never been
  allocated, so it is not pending.
\<close>

theorem pending_settled_once:
  assumes "s = run es (constructor env_endpoint env_apiKey cfg)"
  shows "(\<forall>p < length (sendCalls s).
            count_list (map fst (sendSettled s)) p =
              (if (\<exists>t. map_of (pendingRequests s) (msg_id (sendCalls s ! p)) =
                            Some \<lparr>promise = p, timer = t\<rparr>) then 0 else 1)) \<and>
         (\<forall>p \<in> fst ` set (sendSettled s). p < length (sendCalls s)) \<and>
         distinct (map msg_id (sendCalls s)) \<and>
         distinct (map fst (pendingRequests s)) \<and>
         (\<forall>i pe. (i, pe) \<in> set (pendingRequests s) \<longrightarrow>
            promise pe < length (sendCalls s) \<and> msg_id (sendCalls s ! promise pe) = i) \<and>
         (\<forall>i pe. (i, pe) \<in> set (pendingRequests s) \<longrightarrow>
            (\<exists>m d. activeTimer s (timer pe) = Some (RequestTimeout i m (promise pe), d))) \<and>
         (\<forall>clock. fst (generateMessageId clock s) \<notin> msg_id ` set (sendCalls s))"
proof -
  have c: "correlated s" unfolding assms by (rule correlated_reachable)
  then have ids: "ids_ok s" and pend: "pending_ok s" and st: "settled_ok s"
    by (simp_all add: correlated_def)
  have dist: "distinct (map fst (sendSettled s))"
    and live: "\<forall>p < length (sendCalls s). p \<in> fst ` set (sendSettled s) \<or>
        (\<exists>t. map_of (pendingRequests s) (msg_id (sendCalls s ! p)) = Some \<lparr>promise = p, timer = t\<rparr>)"
    using st by (simp_all add: settled_ok_def)
  have count: "count_list (map fst (sendSettled s)) p =
      (if (\<exists>t. map_of (pendingRequests s) (msg_id (sendCalls s ! p)) =
                  Some \<lparr>promise = p, timer = t\<rparr>) then 0 else 1)"
    if p: "p < length (sendCalls s)" for p
  proof (cases "\<exists>t. map_of (pendingRequests s) (msg_id (sendCalls s ! p)) = Some \<lparr>promise = p, timer = t\<rparr>")
    case True
    then obtain t where "(msg_id (sendCalls s ! p), \<lparr>promise = p, timer = t\<rparr>) \<in> set (pendingRequests s)"
      by (auto dest: map_of_SomeD)
    with pend have "p \<notin> fst ` set (sendSettled s)"
      by (force simp add: pending_ok_def)
    with True show ?thesis by (simp add: count_list_distinct [OF dist])
  next
    case False
    with live p have "p \<in> fst ` set (sendSettled s)" by blast
    with False show ?thesis by (simp add: count_list_distinct [OF dist])
  qed
  have range: "\<forall>p \<in> fst ` set (sendSettled s). p < length (sendCalls s)"
    using st by (simp add: settled_ok_def)
  have keys: "\<forall>i pe. (i, pe) \<in> set (pendingRequests s) \<longrightarrow>
      promise pe < length (sendCalls s) \<and> msg_id (sendCalls s ! promise pe) = i"
    using pend by (simp add: pending_ok_def)
  have fresh: "fst (generateMessageId clock s) \<notin> msg_id ` set (sendCalls s)" for clock
  proof
    assume "fst (generateMessageId clock s) \<in> msg_id ` set (sendCalls s)"
    then obtain m where m: "m \<in> set (sendCalls s)" "msg_id m = mkId clock (messageId s + 1)"
      by (auto simp add: generateMessageId_def Let_def)
    have "\<forall>m \<in> set (sendCalls s). \<exists>c' n'. msg_id m = mkId c' n' \<and> n' \<le> messageId s"
      using ids by (simp add: ids_ok_def)
    with m obtain c' n' where "mkId clock (messageId s + 1) = mkId c' n'" "n' \<le> messageId s"
      by metis
    then show False using mkId_inj [of clock "messageId s + 1" c' n'] by simp
  qed
  have timed: "\<forall>i pe. (i, pe) \<in> set (pendingRequests s) \<longrightarrow>
      (\<exists>m d. activeTimer s (timer pe) = Some (RequestTimeout i m (promise pe), d))"
    using armed_reachable [of es env_endpoint env_apiKey cfg] by (simp add: assms armed_def)
  show ?thesis
    using count range keys timed fresh ids pend
    by (simp add: ids_ok_def pending_ok_def)
qed

theorem pending_settled_once_witness:
  "count_list (map fst (sendSettled (run settled_events (constructor None None no_overrides)))) 0 = 1 \<and>
   count_list (map fst (sendSettled (run settled_events (constructor None None no_overrides)))) 3 = 1 \<and>
   length (sendCalls (run settled_events (constructor None None no_overrides))) = 4 \<and>
   distinct (map msg_id (sendCalls (run settled_events (constructor None None no_overrides))))"
  using pending_settled_once [of "run settled_events (constructor None None no_overrides)"
      settled_events None None no_overrides]
    settled_events_run
  by (auto simp add: map_eq_Cons_conv)

text \<open>
  C7. \<open>disconnect\<close> stops the heartbeat and closes the transport only through the two
  handles \<open>heartbeatInterval\<close> and \<open>websocket\<close>, and \<open>startHeartbeat\<close> and \<open>connect\<close>
  overwrite those handles without clearing or closing what they held. After an outage in
  which a failed reconnection is answered by both the \<open>catch\<close> of the reconnection timer
  and \<open>onclose\<close>, two reconnections are scheduled and both open: sockets 2 and 3 are
  open, heartbeat timers 7 and 9 run, and the client holds socket 3 and timer 9.
  \<open>disconnect\<close> then sets \<open>Disconnected\<close>, closes socket 3 and clears timer 9, but heartbeat
  timer 7 stays armed and socket 2 stays open; when socket 2 is later closed abnormally
  the client starts reconnecting again.
\<close>

theorem disconnect_leaves_heartbeat_and_socket:
  "websocket outage_example = Some 3 \<and> heartbeatInterval outage_example = Some 9 \<and>
   connectionState (disconnect outage_example) = Disconnected \<and>
   activeTimer (disconnect outage_example) 9 = None \<and>
   activeTimer (disconnect outage_example) 7 = Some (HeartbeatInterval, 30000) \<and>
   map readyState (sockets (disconnect outage_example)) = [CLOSED, CLOSED, OPEN, CLOSING] \<and>
   trace (disconnect outage_example) =
     trace outage_example @ [WsClose 3 (Some 1000), Emit_connectionStateChange Disconnected] \<and>
   connectionState (run [SocketClose 2 1006] (disconnect outage_example)) = Reconnecting \<and>
   reconnectAttempts (run [SocketClose 2 1006] (disconnect outage_example)) = 1"
  by (simp add: outage_example_eq eval_defs)

text \<open>
  C8. \<open>disconnect\<close> is idempotent: a second call in a row leaves the whole state as the
  first call left it (connection state, heartbeat timer, pending map and everything
  else), and the model of \<open>disconnect\<close> has no failing branch.
\<close>

theorem disconnect_idempotent: "disconnect (disconnect s) = disconnect s"
proof -
  define s' where "s' = disconnect s"
  have f: "connectionState s' = Disconnected" "heartbeatInterval s' = None"
    "websocket s' = None" "pendingRequests s' = []"
    by (simp_all add: s'_def disconnect_fields)
  have "s'\<lparr>pendingRequests := []\<rparr> = s'\<lparr>pendingRequests := pendingRequests s'\<rparr>"
    by (simp only: f)
  then have "disconnect s' = s'"
    by (simp add: disconnect_def stopHeartbeat_def setConnectionState_def f)
  then show ?thesis by (simp add: s'_def)
qed

text \<open>
  C9. \<open>connect\<close> has no precondition on the state: from any state, where \<open>WebSocket\<close>
  exists and its constructor returns, the state becomes \<open>Connecting\<close>, the new socket is
  stored in \<open>websocket\<close>, the sockets already there are untouched, nothing is closed
  (the trace gains at most the state change) and no promise is settled.
\<close>

theorem connect_any_state:
  "connectionState (connect True True a s) = Connecting \<and>
   websocket (connect True True a s) = Some (length (sockets s)) \<and>
   sockets (connect True True a s) =
     sockets s @ [\<lparr>readyState = CONNECTING, connectionTimeout = length (timers s),
                    connectPromise = length (connectCalls s)\<rparr>] \<and>
   trace (connect True True a s) =
     trace s @ (if connectionState s = Connecting then [] else [Emit_connectionStateChange Connecting]) \<and>
   connectSettled (connect True True a s) = connectSettled s \<and>
   sendSettled (connect True True a s) = sendSettled s \<and>
   pendingRequests (connect True True a s) = pendingRequests s"
  by (simp add: connect_def prim_defs Let_def)

text \<open>
  C10. When \<open>websocket.send\<close> throws inside \<open>sendMessage\<close>, the entry just registered
  is deleted from \<open>pendingRequests\<close>, its timer is cleared and the promise is rejected
  with the thrown error.
\<close>

theorem sendMessage_send_throws:
  assumes "isConnected s"
  shows "map_of (pendingRequests (sendMessage m (Some err) s)) (msg_id m) = None \<and>
         pendingRequests (sendMessage m (Some err) s) = AList.delete (msg_id m) (pendingRequests s) \<and>
         length (timers (sendMessage m (Some err) s)) = Suc (length (timers s)) \<and>
         activeTimer (sendMessage m (Some err) s) (length (timers s)) = None \<and>
         sendSettled (sendMessage m (Some err) s) = sendSettled s @ [(length (sendCalls s), Rejected err)]"
  using assms
  by (auto simp add: sendMessage_def isConnected_def prim_defs Let_def delete_update_same
      delete_conv split: option.splits)

theorem sendMessage_send_throws_witness:
  "isConnected connected_example \<and>
   pendingRequests (sendMessage ping_example (Some ''InvalidStateError'') connected_example) = [] \<and>
   activeTimer (sendMessage ping_example (Some ''InvalidStateError'') connected_example) 2 = None \<and>
   sendSettled (sendMessage ping_example (Some ''InvalidStateError'') connected_example) =
     [(0, Rejected ''InvalidStateError'')]"
  using sendMessage_send_throws [of connected_example ping_example "''InvalidStateError''"]
  by (simp add: connected_example_eq ping_example_def eval_defs)

end
